theory Spec2Isabelle
  imports Complex_Main "HOL-Library.Word" "HOL-Library.Multiset"
begin

section \<open>PokerGrid: data model\<close>

text \<open>
  The model follows \<^verbatim>\<open>src/src/App.tsx\<close>. The Solid signals of the component
  (\<^verbatim>\<open>deck\<close>, \<^verbatim>\<open>grid\<close>, \<^verbatim>\<open>currentCard\<close>, ...) are the fields of one session
  record that every operation takes and returns; a signal read after a write sees the
  written value. JavaScript Numbers that hold integers (rank values, scores, the hash)
  are \<^typ>\<open>int\<close>. The Numbers of the generator are doubles; their arithmetic is
  described in the section on the seeded generator.
\<close>

datatype Suit = heart | diamond | spade | club

datatype Rank = A | R2 | R3 | R4 | R5 | R6 | R7 | R8 | R9 | R10 | J | Q | K

record Card =
  suit :: Suit
  rank :: Rank

datatype Pattern = flush | straight | threeOfAKind | straightFlush

definition SUITS :: "Suit list" where
  "SUITS = [heart, diamond, spade, club]"

definition RANKS :: "Rank list" where
  "RANKS = [A, R2, R3, R4, R5, R6, R7, R8, R9, R10, J, Q, K]"

fun RANK_VALUES :: "Rank \<Rightarrow> int" where
  "RANK_VALUES A = 1"
| "RANK_VALUES R2 = 2"
| "RANK_VALUES R3 = 3"
| "RANK_VALUES R4 = 4"
| "RANK_VALUES R5 = 5"
| "RANK_VALUES R6 = 6"
| "RANK_VALUES R7 = 7"
| "RANK_VALUES R8 = 8"
| "RANK_VALUES R9 = 9"
| "RANK_VALUES R10 = 10"
| "RANK_VALUES J = 11"
| "RANK_VALUES Q = 12"
| "RANK_VALUES K = 13"

fun SCORE_VALUES :: "Pattern \<Rightarrow> int" where
  "SCORE_VALUES flush = 50"
| "SCORE_VALUES straight = 100"
| "SCORE_VALUES threeOfAKind = 100"
| "SCORE_VALUES straightFlush = 200"

text \<open>\<^verbatim>\<open>COMBO_MULTIPLIERS = { 2: 2, 3: 4, 4: 8 }\<close>: an object, so a map; a missing key
  reads as \<^verbatim>\<open>undefined\<close>.\<close>

definition COMBO_MULTIPLIERS :: "nat \<rightharpoonup> int" where
  "COMBO_MULTIPLIERS = [2 \<mapsto> 2, 3 \<mapsto> 4, 4 \<mapsto> 8]"

definition PATTERNS :: "nat list list" where
  "PATTERNS =
     [[0, 1, 2], [3, 4, 5], [6, 7, 8],
      [0, 3, 6], [1, 4, 7], [2, 5, 8],
      [0, 4, 8], [2, 4, 6]]"

section \<open>Pattern classification\<close>

text \<open>An array read \<^verbatim>\<open>xs[i]\<close>: \<^verbatim>\<open>undefined\<close> (here \<open>None\<close>) past the end.\<close>

definition elem_at :: "'a list \<Rightarrow> nat \<Rightarrow> 'a option" where
  "elem_at xs i = (if i < length xs then Some (xs ! i) else None)"

text \<open>\<^verbatim>\<open>cards.every(c => c.suit === cards[0].suit)\<close>: on the empty array
  \<^verbatim>\<open>every\<close> is true and \<^verbatim>\<open>cards[0]\<close> is never read.\<close>

definition isFlush :: "Card list \<Rightarrow> bool" where
  "isFlush cards = list_all (\<lambda>c. Some (suit c) = map_option suit (elem_at cards 0)) cards"

text \<open>
  \<^verbatim>\<open>values\<close> is the numerically sorted list of rank values. A comparison
  \<^verbatim>\<open>values[k] === n\<close> is false when \<^verbatim>\<open>values[k]\<close> is \<^verbatim>\<open>undefined\<close>, and so is
  \<^verbatim>\<open>values[1] === values[0] + 1\<close> when either side is missing
  (\<^verbatim>\<open>undefined + 1\<close> is \<^verbatim>\<open>NaN\<close>).
\<close>

definition isStraight :: "Card list \<Rightarrow> bool" where
  "isStraight cards =
     (let values = sort (map (\<lambda>c. RANK_VALUES (rank c)) cards) in
      if elem_at values 0 = Some 1 \<and> elem_at values 1 = Some 12 \<and> elem_at values 2 = Some 13 then True
      else if elem_at values 0 = Some 1 \<and> elem_at values 1 = Some 2 \<and> elem_at values 2 = Some 3 then True
      else (case (elem_at values 0, elem_at values 1, elem_at values 2) of
              (Some v0, Some v1, Some v2) \<Rightarrow> v1 = v0 + 1 \<and> v2 = v1 + 1
            | _ \<Rightarrow> False))"

definition isThreeOfAKind :: "Card list \<Rightarrow> bool" where
  "isThreeOfAKind cards = list_all (\<lambda>c. Some (rank c) = map_option rank (elem_at cards 0)) cards"

definition getPatternType :: "Card list \<Rightarrow> Pattern option" where
  "getPatternType cards =
     (if isStraight cards \<and> isFlush cards then Some straightFlush
      else if isFlush cards then Some flush
      else if isStraight cards then Some straight
      else if isThreeOfAKind cards then Some threeOfAKind
      else None)"

section \<open>The seeded generator\<close>

text \<open>
  A JavaScript string is a sequence of UTF-16 code units. \<^verbatim>\<open>Array.from(seed)\<close>
  iterates it by code point: a high surrogate followed by a low surrogate is one element
  of two code units, every other code unit is an element of its own.
\<close>

type_synonym jsstring = "16 word list"

fun Array_from :: "jsstring \<Rightarrow> jsstring list" where
  "Array_from [] = []"
| "Array_from [c] = [[c]]"
| "Array_from (c # d # cs) =
     (if 0xD800 \<le> c \<and> c \<le> 0xDBFF \<and> 0xDC00 \<le> d \<and> d \<le> 0xDFFF
      then [c, d] # Array_from cs
      else [c] # Array_from (d # cs))"

text \<open>\<^verbatim>\<open>char.charCodeAt(0)\<close>: the first code unit, \<^verbatim>\<open>NaN\<close> (here \<open>None\<close>) on the
  empty string.\<close>

definition charCodeAt0 :: "jsstring \<Rightarrow> int option" where
  "charCodeAt0 char = (case char of [] \<Rightarrow> None | c # _ \<Rightarrow> Some (uint c))"

text \<open>\<^verbatim>\<open>ToInt32\<close> is what \<^verbatim>\<open>| 0\<close> and the operands of \<^verbatim>\<open><<\<close> go through: the
  value modulo \<open>2^32\<close>, read as two's complement. The shift count is taken modulo 32.\<close>

definition ToInt32 :: "int \<Rightarrow> int" where
  "ToInt32 x = (x + 2 ^ 31) mod 2 ^ 32 - 2 ^ 31"

definition shiftLeft :: "int \<Rightarrow> nat \<Rightarrow> int" where
  "shiftLeft x n = ToInt32 (ToInt32 x * 2 ^ (n mod 32))"

text \<open>The reducer \<^verbatim>\<open>((acc << 5) - acc) + char.charCodeAt(0) | 0\<close>; \<^verbatim>\<open>|\<close> binds
  weaker than \<^verbatim>\<open>+\<close>, and \<^verbatim>\<open>NaN | 0\<close> is 0.\<close>

definition hashStep :: "int \<Rightarrow> jsstring \<Rightarrow> int" where
  "hashStep acc char =
     (case charCodeAt0 char of
        None \<Rightarrow> 0
      | Some code \<Rightarrow> ToInt32 ((shiftLeft acc 5 - acc) + code))"

text \<open>\<^verbatim>\<open>createSeededRandom\<close> returns a closure over \<^verbatim>\<open>hash\<close>. The model returns the
  initial value of \<^verbatim>\<open>hash\<close>; \<open>generator\<close> is one call of the closure, from the
  current \<^verbatim>\<open>hash\<close> to the returned Number and the new \<^verbatim>\<open>hash\<close>.\<close>

definition createSeededRandom :: "jsstring \<Rightarrow> int" where
  "createSeededRandom seed = fold (\<lambda>char acc. hashStep acc char) (Array_from seed) 0"

text \<open>
  Double arithmetic. A finite double is the real number it denotes. What the IEEE
  arithmetic of the engine adds to the arithmetic of the reals is kept as two parameters:
  \<open>Math_sin\<close>, the sine of the engine (which the language leaves to the implementation),
  and \<open>round_double\<close>, the rounding of an exact result to the double that represents it.
  A product \<^verbatim>\<open>a * b\<close> is \<open>round_double (a * b)\<close> and a difference \<^verbatim>\<open>a - b\<close> is
  \<open>round_double (a - b)\<close>; \<^verbatim>\<open>Math.floor\<close> is exact. The hash is an integer far below
  \<open>2^53\<close>, so \<^verbatim>\<open>hash++\<close> and \<^verbatim>\<open>i + 1\<close> are exact. The sine of a finite Number
  is finite and the products stay far below the largest double, so neither \<^verbatim>\<open>NaN\<close> nor
  an infinity arises.
\<close>

record fpu =
  Math_sin :: "real \<Rightarrow> real"
  round_double :: "real \<Rightarrow> real"

text \<open>\<^verbatim>\<open>const x = Math.sin(hash++) * 10000; return x - Math.floor(x);\<close>\<close>

definition generator :: "fpu \<Rightarrow> int \<Rightarrow> real \<times> int" where
  "generator fp hash =
     (let x = round_double fp (Math_sin fp (real_of_int hash) * 10000)
      in (round_double fp (x - of_int \<lfloor>x\<rfloor>), hash + 1))"

section \<open>Cells and the session\<close>

text \<open>A grid cell is \<^verbatim>\<open>null\<close> or a card; \<^verbatim>\<open>Undefined\<close> is what a read past the end
  of the array gives and what a write past the end leaves in between.\<close>

datatype Cell = Null | Undefined | Occupied Card

fun truthy :: "Cell \<Rightarrow> bool" where
  "truthy (Occupied c) = True"
| "truthy Null = False"
| "truthy Undefined = False"

fun card_of :: "Cell \<Rightarrow> Card option" where
  "card_of (Occupied c) = Some c"
| "card_of Null = None"
| "card_of Undefined = None"

definition array_get :: "Cell list \<Rightarrow> nat \<Rightarrow> Cell" where
  "array_get xs i = (if i < length xs then xs ! i else Undefined)"

definition array_set :: "Cell list \<Rightarrow> nat \<Rightarrow> Cell \<Rightarrow> Cell list" where
  "array_set xs i v =
     (if i < length xs then xs[i := v]
      else xs @ replicate (i - length xs) Undefined @ [v])"

text \<open>\<^verbatim>\<open>.filter(Boolean) as Card[]\<close>: the cards of the truthy cells, in order.\<close>

definition filter_Boolean :: "Cell list \<Rightarrow> Card list" where
  "filter_Boolean cells = List.map_filter card_of cells"

text \<open>\<^verbatim>\<open>new Set(xs)\<close>: the elements of \<open>xs\<close> in order of first occurrence.\<close>

fun new_Set :: "'a list \<Rightarrow> 'a list" where
  "new_Set [] = []"
| "new_Set (x # xs) = x # new_Set (filter (\<lambda>y. y \<noteq> x) xs)"

record PatternDetail =
  pd_type :: Pattern
  pd_basePoints :: int
  pd_points :: int
  pd_cards :: "Card list"

text \<open>The strings built from the translation table are kept as their arguments.\<close>

datatype Message =
    NoMessage
  | ComboClearing nat int int
  | PatternPoints Pattern int
  | GameOverMessage

datatype LogEntry =
    MultiplePattern nat int int "PatternDetail list"
  | SinglePattern Pattern "Card list" int

datatype error = TypeError | NullAssertion

text \<open>
  The session: the signals that the game functions read and write. \<open>seededRandom\<close> is
  the \<^verbatim>\<open>hash\<close> variable of the closure that the signal of that name holds; the signal
  is set by \<^verbatim>\<open>startGame\<close> before its first use. The signals of the presentation alone
  (language, dark mode, deck panel, seed input, toast) are left out.
\<close>

record session =
  deck :: "Card list"
  grid :: "Cell list"
  currentCard :: "Card option"
  score :: int
  currentSeed :: jsstring
  gameOver :: bool
  gameMessage :: Message
  gameLog :: "LogEntry list"
  showResultModal :: bool
  seededRandom :: int

section \<open>Deck, shuffle and draw\<close>

definition remainingCards :: "session \<Rightarrow> int" where
  "remainingCards s = int (length (deck s)) - (if currentCard s \<noteq> None then 1 else 0)"

definition createDeck :: "Card list" where
  "createDeck = concat (map (\<lambda>st. map (\<lambda>rk. \<lparr>suit = st, rank = rk\<rparr>) RANKS) SUITS)"

text \<open>
  The array \<^verbatim>\<open>shuffled\<close> as the object it is: a property for each integer key, which
  reads as \<^verbatim>\<open>undefined\<close> (here \<open>None\<close>) where it is absent, and a length. A key from 0
  to \<open>2^32 - 2\<close> is an array index, and writing at an index at or past the length extends
  the array; any other integer key names a plain property and leaves the length alone.
  \<open>toList\<close> is the array as the rest of the program sees it (\<^verbatim>\<open>length\<close>, spread,
  \<^verbatim>\<open>pop\<close>): the elements at the indices below the length.
\<close>

record 'a JSArray =
  props :: "int \<Rightarrow> 'a option"
  alen :: nat

definition arrayOf :: "'a list \<Rightarrow> 'a JSArray" where
  "arrayOf xs =
     \<lparr>props = (\<lambda>k. if 0 \<le> k \<and> nat k < length xs then Some (xs ! nat k) else None),
      alen = length xs\<rparr>"

definition propGet :: "'a JSArray \<Rightarrow> int \<Rightarrow> 'a option" where
  "propGet arr k = props arr k"

definition propSet :: "'a JSArray \<Rightarrow> int \<Rightarrow> 'a option \<Rightarrow> 'a JSArray" where
  "propSet arr k v =
     \<lparr>props = (props arr)(k := v),
      alen = (if 0 \<le> k \<and> k < 2 ^ 32 - 1 \<and> alen arr \<le> nat k then nat k + 1 else alen arr)\<rparr>"

definition toList :: "'a JSArray \<Rightarrow> 'a option list" where
  "toList arr = map (\<lambda>k. props arr (int k)) [0..<alen arr]"

text \<open>
  The loop of \<^verbatim>\<open>shuffleDeck\<close>, \<^verbatim>\<open>for (let i = shuffled.length - 1; i > 0; i--)\<close>,
  with the \<^verbatim>\<open>hash\<close> of the generator threaded through. The destructuring swap
  \<^verbatim>\<open>[shuffled[i], shuffled[j]] = [shuffled[j], shuffled[i]]\<close> reads \<^verbatim>\<open>shuffled[j]\<close> and
  \<^verbatim>\<open>shuffled[i]\<close> and then writes \<^verbatim>\<open>shuffled[i]\<close> before \<^verbatim>\<open>shuffled[j]\<close>, whatever
  integer \<^verbatim>\<open>j\<close> is.
\<close>

fun shuffle_loop :: "fpu \<Rightarrow> nat \<Rightarrow> int \<Rightarrow> 'a JSArray \<Rightarrow> 'a JSArray \<times> int" where
  "shuffle_loop fp 0 hash shuffled = (shuffled, hash)"
| "shuffle_loop fp (Suc k) hash shuffled =
     (let i = Suc k;
          (r, hash') = generator fp hash;
          j = \<lfloor>round_double fp (r * real (i + 1))\<rfloor>;
          a = propGet shuffled j;
          b = propGet shuffled (int i);
          shuffled1 = propSet shuffled (int i) a;
          shuffled2 = propSet shuffled1 j b
      in shuffle_loop fp k hash' shuffled2)"

text \<open>\<^verbatim>\<open>shuffleDeck\<close> copies the deck, runs the loop and returns the array, whose
  elements are cards or, after a swap outside the array, \<^verbatim>\<open>undefined\<close>.\<close>

definition shuffleDeck :: "fpu \<Rightarrow> Card list \<Rightarrow> session \<Rightarrow> Card option list \<times> session" where
  "shuffleDeck fp cards s =
     (let (shuffled, hash) = shuffle_loop fp (length cards - 1) (seededRandom s) (arrayOf cards)
      in (toList shuffled, s\<lparr>seededRandom := hash\<rparr>))"

definition drawCard :: "session \<Rightarrow> Card option \<times> session" where
  "drawCard s =
     (let currentDeck = deck s in
      if length currentDeck = 0 then (None, s)
      else (Some (last currentDeck), s\<lparr>deck := butlast currentDeck\<rparr>))"

definition displayCurrentCard :: "Card option \<Rightarrow> session \<Rightarrow> session" where
  "displayCurrentCard c s = s\<lparr>currentCard := c\<rparr>"

section \<open>Pattern detection, scoring and clearing\<close>

text \<open>The valid patterns of \<^verbatim>\<open>checkPatterns\<close>: each triple with the cards on it, kept
  when all three cells hold a card and the cards classify.\<close>

definition validPatterns :: "session \<Rightarrow> (nat list \<times> Card list) list" where
  "validPatterns s =
     filter (\<lambda>(pattern, cards). length cards = 3 \<and> getPatternType cards \<noteq> None)
       (map (\<lambda>pattern. (pattern, filter_Boolean (map (\<lambda>index. array_get (grid s) index) pattern)))
          PATTERNS)"

text \<open>\<^verbatim>\<open>patternDetails[0]\<close> on an empty array is \<^verbatim>\<open>undefined\<close>, and reading its
  \<^verbatim>\<open>type\<close> throws a TypeError.\<close>

definition addToGameLog :: "PatternDetail list \<Rightarrow> nat \<Rightarrow> int \<Rightarrow> session \<Rightarrow> error + session" where
  "addToGameLog patternDetails cnt totalPoints s =
     (if cnt > 1
      then let multiplierText = (if cnt \<ge> 4 then 8 else if cnt = 3 then 4 else 2)
           in Inr (s\<lparr>gameLog :=
                      MultiplePattern cnt multiplierText totalPoints patternDetails # gameLog s\<rparr>)
      else (case elem_at patternDetails 0 of
              None \<Rightarrow> Inl TypeError
            | Some p \<Rightarrow>
                Inr (s\<lparr>gameLog := SinglePattern (pd_type p) (pd_cards p) (pd_points p) # gameLog s\<rparr>)))"

text \<open>\<^verbatim>\<open>getPatternType(cards)!\<close>: the assertion that the type is not \<^verbatim>\<open>null\<close>; where
  it fails the model returns \<open>NullAssertion\<close>.\<close>

definition withType :: "nat list \<times> Card list \<Rightarrow> (nat list \<times> Pattern \<times> Card list) option" where
  "withType = (\<lambda>(pattern, cards). map_option (\<lambda>t. (pattern, t, cards)) (getPatternType cards))"

text \<open>\<^verbatim>\<open>new Set(validPatterns.flatMap(({ pattern }) => pattern))\<close>.\<close>

definition cellsToRemove :: "(nat list \<times> Card list) list \<Rightarrow> nat list" where
  "cellsToRemove vps = new_Set (concat (map fst vps))"

text \<open>
  \<^verbatim>\<open>processPatterns\<close>. \<^verbatim>\<open>COMBO_MULTIPLIERS[...] || 1\<close> is 1 for a missing key and
  for 0. \<^verbatim>\<open>Math.round\<close> is \<open>\<lfloor>x + 1/2\<rfloor>\<close>, which is \<^const>\<open>round\<close>. The timer that
  empties the message two seconds later is not part of the model.
\<close>

definition processPatterns :: "(nat list \<times> Card list) list \<Rightarrow> session \<Rightarrow> error + session" where
  "processPatterns vps s =
     (case those (map withType vps) of
        None \<Rightarrow> Inl NullAssertion
      | Some patternsWithType \<Rightarrow>
         (let baseTotalPoints =
                fold (\<lambda>(pattern, patternType, cards) sum. sum + SCORE_VALUES patternType)
                  patternsWithType 0;
              multiplier =
                (case COMBO_MULTIPLIERS (min (length vps) 4) of
                   None \<Rightarrow> 1
                 | Some m \<Rightarrow> if m = 0 then 1 else m);
              totalPoints = baseTotalPoints * multiplier;
              s1 = s\<lparr>score := score s + totalPoints\<rparr>;
              patternDetails =
                map (\<lambda>(pattern, patternType, cards).
                       \<lparr>pd_type = patternType,
                        pd_basePoints = SCORE_VALUES patternType,
                        pd_points =
                          round (real_of_int totalPoints *
                                 (real_of_int (SCORE_VALUES patternType) / real_of_int baseTotalPoints)),
                        pd_cards = cards\<rparr>)
                  patternsWithType
          in (case addToGameLog patternDetails (length vps) totalPoints s1 of
               Inl e \<Rightarrow> Inl e
             | Inr s2 \<Rightarrow>
                 (case (if length vps \<ge> 2
                        then Some (ComboClearing (length vps) multiplier totalPoints)
                        else map_option (\<lambda>(pattern, patternType, cards). PatternPoints patternType totalPoints)
                               (elem_at patternsWithType 0)) of
                    None \<Rightarrow> Inl TypeError
                  | Some message \<Rightarrow>
                      let s3 = s2\<lparr>gameMessage := message\<rparr>;
                          newGrid = fold (\<lambda>index g. array_set g index Null)
                                      (cellsToRemove vps) (grid s3)
                      in Inr (s3\<lparr>grid := newGrid\<rparr>)))))"

definition checkPatterns :: "session \<Rightarrow> error + session" where
  "checkPatterns s =
     (if length (validPatterns s) > 0 then processPatterns (validPatterns s) s else Inr s)"

section \<open>Game over, placement and start\<close>

text \<open>In \<^verbatim>\<open>hasValidPatterns\<close> the cells of a triple are mapped to cards only after
  \<^verbatim>\<open>every\<close> has found all of them truthy, so the cards are the truthy cells.\<close>

definition hasValidPatterns :: "session \<Rightarrow> bool" where
  "hasValidPatterns s =
     list_ex (\<lambda>pattern.
        list_all (\<lambda>index. truthy (array_get (grid s) index)) pattern \<and>
        getPatternType (filter_Boolean (map (\<lambda>index. array_get (grid s) index) pattern)) \<noteq> None)
       PATTERNS"

definition checkGameOver :: "session \<Rightarrow> session" where
  "checkGameOver s =
     (let gridFull = list_all (\<lambda>cell. cell \<noteq> Null) (grid s);
          cardsEmpty = (length (deck s) = 0 \<and> currentCard s = None)
      in if (gridFull \<and> \<not> hasValidPatterns s) \<or> cardsEmpty
         then s\<lparr>gameOver := True, showResultModal := True, gameMessage := GameOverMessage\<rparr>
         else s)"

definition placeCard :: "nat \<Rightarrow> session \<Rightarrow> error + session" where
  "placeCard index s =
     (if truthy (array_get (grid s) index) \<or> currentCard s = None then Inr s
      else let newGrid = array_set (grid s) index
                           (case currentCard s of Some c \<Rightarrow> Occupied c | None \<Rightarrow> Null);
               s1 = s\<lparr>grid := newGrid\<rparr>
           in case checkPatterns s1 of
                Inl e \<Rightarrow> Inl e
              | Inr s2 \<Rightarrow>
                  let (nextCard, s3) = drawCard s2;
                      s4 = displayCurrentCard nextCard s3
                  in Inr (checkGameOver s4))"

text \<open>The click handler of a grid cell:
  \<^verbatim>\<open>!gameOver() && !card && currentCard() && placeCard(index())\<close>, where \<^verbatim>\<open>card\<close> is
  the cell at \<^verbatim>\<open>index()\<close>.\<close>

definition onClick :: "nat \<Rightarrow> session \<Rightarrow> error + session" where
  "onClick index s =
     (if \<not> gameOver s \<and> \<not> truthy (array_get (grid s) index) \<and> currentCard s \<noteq> None
      then placeCard index s
      else Inr s)"

text \<open>
  \<^verbatim>\<open>startGame(seed?)\<close>: \<^verbatim>\<open>seed || crypto.randomUUID()\<close> takes the fresh identifier
  when the seed is missing or the empty string; \<open>uuid\<close> is the string that
  \<^verbatim>\<open>crypto.randomUUID()\<close> would return. The deck of a session is a list of cards: where
  the shuffled array holds \<^verbatim>\<open>undefined\<close> the session is none that this model
  describes, and the result is \<open>None\<close>.
\<close>

definition startGame :: "fpu \<Rightarrow> jsstring option \<Rightarrow> jsstring \<Rightarrow> session \<Rightarrow> session option" where
  "startGame fp seed uuid s =
     (let newSeed = (case seed of None \<Rightarrow> uuid | Some sd \<Rightarrow> if sd = [] then uuid else sd);
          s1 = s\<lparr>currentSeed := newSeed, seededRandom := createSeededRandom newSeed,
                 grid := replicate 9 Null, score := 0, gameOver := False,
                 gameMessage := NoMessage, showResultModal := False, gameLog := []\<rparr>;
          (newDeck, s2) = shuffleDeck fp createDeck s1
      in case those newDeck of
           None \<Rightarrow> None
         | Some cards \<Rightarrow>
             (let s3 = s2\<lparr>deck := cards\<rparr>;
                  (firstCard, s4) = drawCard s3
              in Some (displayCurrentCard firstCard s4)))"

section \<open>Notions of the specification\<close>

text \<open>The pattern a triple yields: none unless its three cells hold cards and the cards
  classify. \<open>matched\<close> lists the triples that yield a pattern, \<open>patternScore\<close> the base
  points of a triple, \<open>comboMultiplier\<close> the multiplier for \<open>n\<close> simultaneous patterns.\<close>

definition patternOn :: "Cell list \<Rightarrow> nat list \<Rightarrow> Pattern option" where
  "patternOn g p =
     (case map (array_get g) p of
        [Occupied a, Occupied b, Occupied c] \<Rightarrow> getPatternType [a, b, c]
      | _ \<Rightarrow> None)"

definition matched :: "session \<Rightarrow> nat list list" where
  "matched s = filter (\<lambda>p. patternOn (grid s) p \<noteq> None) PATTERNS"

definition patternScore :: "Cell list \<Rightarrow> nat list \<Rightarrow> int" where
  "patternScore g p = (case patternOn g p of None \<Rightarrow> 0 | Some t \<Rightarrow> SCORE_VALUES t)"

definition basePoints :: "Card list \<Rightarrow> int" where
  "basePoints cards = (case getPatternType cards of None \<Rightarrow> 0 | Some t \<Rightarrow> SCORE_VALUES t)"

definition comboMultiplier :: "nat \<Rightarrow> int" where
  "comboMultiplier n = (if n \<ge> 4 then 8 else if n = 3 then 4 else if n = 2 then 2 else 1)"

text \<open>
  The hash as the specification words it: starting from 0, for each character of the seed
  from left to right, \<open>hash = (hash << 5) - hash + charCode\<close> truncated to 32 bits. The
  characters are the elements of \<^verbatim>\<open>Array.from(seed)\<close> and the code of a character is its
  first code unit.
\<close>

definition specHash :: "32 word list \<Rightarrow> 32 word" where
  "specHash codes = fold (\<lambda>code hash. push_bit 5 hash - hash + code) codes 0"

definition charCodes :: "jsstring \<Rightarrow> 32 word list" where
  "charCodes seed = map (\<lambda>char. ucast (hd char)) (Array_from seed)"




definition fisherYatesStep :: "fpu \<Rightarrow> nat \<Rightarrow> 'a list \<times> int \<Rightarrow> ('a list \<times> int) option" where
  "fisherYatesStep fp i = (\<lambda>(xs, hash).
     let (r, hash') = generator fp hash;
         j = \<lfloor>round_double fp (r * real (i + 1))\<rfloor>
     in if 0 \<le> j \<and> nat j < length xs \<and> i < length xs
        then Some (xs[i := xs ! nat j, nat j := xs ! i], hash')
        else None)"

definition fisherYates :: "fpu \<Rightarrow> 'a list \<Rightarrow> int \<Rightarrow> ('a list \<times> int) option" where
  "fisherYates fp xs hash =
     fold (\<lambda>i st. Option.bind st (fisherYatesStep fp i)) (rev [1..<length xs]) (Some (xs, hash))"

text \<open>Arithmetic without rounding, with the sine of the reals.\<close>

definition exactFpu :: fpu where
  "exactFpu = \<lparr>Math_sin = sin, round_double = (\<lambda>x. x)\<rparr>"

text \<open>An engine whose sine of -122925461 is the double 1, the double nearest to the sine
  of the reals there; elsewhere as \<open>exactFpu\<close>. The seed \<^verbatim>\<open>ANZXATI\<close> has this hash:
  the first value of its generator is then 0, the first swap is with index 0, and the
  first card of the game is the ace of hearts.\<close>

definition roundedSineFpu :: fpu where
  "roundedSineFpu =
     \<lparr>Math_sin = (\<lambda>x. if x = - 122925461 then 1 else sin x), round_double = (\<lambda>x. x)\<rparr>"

text \<open>The values of an array object lie in a set \<open>S\<close>, no value is at two keys, and
  the length is at least \<open>n\<close>.\<close>

definition valuesApart :: "'a set \<Rightarrow> nat \<Rightarrow> 'a JSArray \<Rightarrow> bool" where
  "valuesApart S n arr \<longleftrightarrow>
     (\<forall>k x. props arr k = Some x \<longrightarrow> x \<in> S)
     \<and> (\<forall>k k' x. props arr k = Some x \<and> props arr k' = Some x \<longrightarrow> k = k')
     \<and> n \<le> alen arr"

text \<open>The seed \<^verbatim>\<open>startGame\<close> plays, and the deck order that a seed determines.\<close>

definition newSeedOf :: "jsstring option \<Rightarrow> jsstring \<Rightarrow> jsstring" where
  "newSeedOf seed uuid = (case seed of None \<Rightarrow> uuid | Some sd \<Rightarrow> if sd = [] then uuid else sd)"

definition deckOfSeed :: "fpu \<Rightarrow> jsstring \<Rightarrow> Card option list" where
  "deckOfSeed fp seed =
     toList (fst (shuffle_loop fp (length createDeck - 1) (createSeededRandom seed)
                    (arrayOf createDeck)))"

text \<open>
  Card conservation. The cards of a session are those in the deck, the card in hand and
  the cards on the grid; no card is among them twice and all are cards of the 52-card
  deck. The cleared cards are the cards of the 52 that are in none of the three places.
\<close>

definition heldCards :: "session \<Rightarrow> Card list" where
  "heldCards s = (case currentCard s of None \<Rightarrow> [] | Some c \<Rightarrow> [c])"

definition gridCards :: "session \<Rightarrow> Card list" where
  "gridCards s = filter_Boolean (grid s)"

definition conservation :: "session \<Rightarrow> bool" where
  "conservation s \<longleftrightarrow>
     distinct (deck s @ heldCards s @ gridCards s)
     \<and> set (deck s @ heldCards s @ gridCards s) \<subseteq> set createDeck"

definition clearedCards :: "session \<Rightarrow> Card set" where
  "clearedCards s = set createDeck - set (deck s) - set (heldCards s) - set (gridCards s)"

text \<open>A grid as \<^verbatim>\<open>startGame\<close> makes it and placements on its nine cells keep it.\<close>

definition gridOK :: "session \<Rightarrow> bool" where
  "gridOK s \<longleftrightarrow> length (grid s) = 9 \<and> Undefined \<notin> set (grid s)"

text \<open>What holds of every session between operations: the grid has its nine cells, and
  a finished game has a full grid or no card in hand.\<close>

definition sessionOK :: "session \<Rightarrow> bool" where
  "sessionOK s \<longleftrightarrow>
     gridOK s \<and> (gameOver s \<longrightarrow> list_all truthy (grid s) \<or> currentCard s = None)"

section \<open>Example sessions\<close>

text \<open>Row 0 holds 5, 6, 7 of hearts and column 0 holds three fives; the two triples share
  cell 0.\<close>

definition comboSession :: session where
  "comboSession =
     \<lparr>deck = [\<lparr>suit = club, rank = K\<rparr>, \<lparr>suit = club, rank = Q\<rparr>],
      grid = [Occupied \<lparr>suit = heart, rank = R5\<rparr>, Occupied \<lparr>suit = heart, rank = R6\<rparr>,
              Occupied \<lparr>suit = heart, rank = R7\<rparr>,
              Occupied \<lparr>suit = spade, rank = R5\<rparr>, Null, Occupied \<lparr>suit = club, rank = R2\<rparr>,
              Occupied \<lparr>suit = diamond, rank = R5\<rparr>, Null, Null],
      currentCard = Some \<lparr>suit = club, rank = R9\<rparr>,
      score = 150, currentSeed = [], gameOver = False, gameMessage = NoMessage,
      gameLog = [], showResultModal = False, seededRandom = 0\<rparr>"

text \<open>One card left in the deck and one in hand, on an empty grid.\<close>

definition lastCardSession :: session where
  "lastCardSession =
     \<lparr>deck = [\<lparr>suit = club, rank = K\<rparr>],
      grid = replicate 9 Null,
      currentCard = Some \<lparr>suit = club, rank = Q\<rparr>,
      score = 0, currentSeed = [], gameOver = False, gameMessage = NoMessage,
      gameLog = [], showResultModal = False, seededRandom = 0\<rparr>"

text \<open>The deck is exhausted and the last card is in hand, on an empty grid.\<close>

definition exhaustedSession :: session where
  "exhaustedSession =
     \<lparr>deck = [],
      grid = replicate 9 Null,
      currentCard = Some \<lparr>suit = club, rank = Q\<rparr>,
      score = 0, currentSeed = [], gameOver = False, gameMessage = NoMessage,
      gameLog = [], showResultModal = False, seededRandom = 0\<rparr>"

text \<open>A finished game: the deck is not empty but no card is in hand.\<close>

definition finishedSession :: session where
  "finishedSession =
     \<lparr>deck = [\<lparr>suit = club, rank = K\<rparr>],
      grid = replicate 9 Null,
      currentCard = None,
      score = 300, currentSeed = [], gameOver = True, gameMessage = GameOverMessage,
      gameLog = [], showResultModal = True, seededRandom = 0\<rparr>"

section \<open>Lemmas on classification\<close>

lemma sort_values_mset:
  assumes "mset [rank a, rank b, rank c] = mset rs"
  shows "sort (map (\<lambda>c. RANK_VALUES (rank c)) [a, b, c]) = sort (map RANK_VALUES rs)"
proof -
  have "mset (map (\<lambda>c. RANK_VALUES (rank c)) [a, b, c])
          = image_mset RANK_VALUES (mset [rank a, rank b, rank c])"
    by simp
  also have "\<dots> = mset (map RANK_VALUES rs)"
    using assms by (simp only: mset_map)
  finally show ?thesis
    by (metis properties_for_sort sorted_sort mset_sort)
qed

lemma isStraight_sorted:
  "isStraight [a, b, c] \<longleftrightarrow>
     (let values = sort [RANK_VALUES (rank a), RANK_VALUES (rank b), RANK_VALUES (rank c)] in
        values = [1, 12, 13] \<or> values = [1, 2, 3] \<or>
        (values ! 1 = values ! 0 + 1 \<and> values ! 2 = values ! 1 + 1))"
  by (auto simp: isStraight_def elem_at_def Let_def)

lemma isStraight_ranks:
  assumes "mset [rank a, rank b, rank c] = mset rs"
  shows "isStraight [a, b, c] \<longleftrightarrow>
     (let values = sort (map RANK_VALUES rs) in
      if elem_at values 0 = Some 1 \<and> elem_at values 1 = Some 12 \<and> elem_at values 2 = Some 13 then True
      else if elem_at values 0 = Some 1 \<and> elem_at values 1 = Some 2 \<and> elem_at values 2 = Some 3 then True
      else (case (elem_at values 0, elem_at values 1, elem_at values 2) of
              (Some v0, Some v1, Some v2) \<Rightarrow> v1 = v0 + 1 \<and> v2 = v1 + 1
            | _ \<Rightarrow> False))"
  unfolding isStraight_def sort_values_mset[OF assms] ..

lemma getPatternType_triple:
  "getPatternType [a, b, c] =
     (if (suit a = suit b \<and> suit b = suit c) \<and> isStraight [a, b, c] then Some straightFlush
      else if suit a = suit b \<and> suit b = suit c then Some flush
      else if isStraight [a, b, c] then Some straight
      else if rank a = rank b \<and> rank b = rank c then Some threeOfAKind
      else None)"
  by (auto simp: getPatternType_def isFlush_def isThreeOfAKind_def elem_at_def)

section \<open>Lemmas on the pattern engine\<close>

lemma set_new_Set: "set (new_Set xs) = set xs"
  by (induction xs rule: new_Set.induct) auto

lemma distinct_new_Set: "distinct (new_Set xs)"
  by (induction xs rule: new_Set.induct) (auto simp: set_new_Set)

lemma length_clear:
  "\<forall>i\<in>set cells. i < length g \<Longrightarrow>
     length (fold (\<lambda>index g. array_set g index Null) cells g) = length g"
  by (induction cells arbitrary: g) (auto simp: array_set_def)

lemma nth_clear:
  "\<forall>i\<in>set cells. i < length g \<Longrightarrow> k < length g \<Longrightarrow>
     fold (\<lambda>index g. array_set g index Null) cells g ! k
       = (if k \<in> set cells then Null else g ! k)"
proof (induction cells arbitrary: g)
  case Nil
  then show ?case by simp
next
  case (Cons i cells)
  have len: "length (array_set g i Null) = length g"
    using Cons.prems by (simp add: array_set_def)
  have "fold (\<lambda>index g. array_set g index Null) cells (array_set g i Null) ! k
          = (if k \<in> set cells then Null else array_set g i Null ! k)"
    using Cons.prems len by (intro Cons.IH) auto
  then show ?case using Cons.prems by (auto simp: array_set_def nth_list_update)
qed

lemma PATTERNS_range: "p \<in> set PATTERNS \<Longrightarrow> i \<in> set p \<Longrightarrow> i < 9"
  by (auto simp: PATTERNS_def)

lemma length_filter_Boolean: "length (filter_Boolean cells) \<le> length cells"
  by (induction cells) (auto simp: filter_Boolean_def List.map_filter_simps split: option.splits)

lemma filter_Boolean_full:
  "length (filter_Boolean cells) = length cells \<longleftrightarrow> list_all truthy cells"
proof (induction cells)
  case Nil
  then show ?case by (simp add: filter_Boolean_def List.map_filter_simps)
next
  case (Cons x xs)
  show ?case using Cons length_filter_Boolean[of xs]
    by (cases x) (auto simp: filter_Boolean_def List.map_filter_simps)
qed

lemma PATTERNS_length: "p \<in> set PATTERNS \<Longrightarrow> length p = 3"
  by (auto simp: PATTERNS_def)

lemma triple_full_iff:
  assumes "p \<in> set PATTERNS"
  shows "length (filter_Boolean (map (array_get g) p)) = 3
           \<longleftrightarrow> list_all (\<lambda>i. truthy (array_get g i)) p"
proof -
  have "length (map (array_get g) p) = 3" using assms by (simp add: PATTERNS_length)
  then show ?thesis
    using filter_Boolean_full[of "map (array_get g) p"] by (simp add: list_all_iff)
qed

lemma hasValidPatterns_iff: "hasValidPatterns s \<longleftrightarrow> validPatterns s \<noteq> []"
  unfolding hasValidPatterns_def validPatterns_def list_ex_iff filter_empty_conv
  using triple_full_iff[of _ "grid s"] by auto

lemma those_withType:
  "\<forall>(p, cs)\<in>set vps. getPatternType cs \<noteq> None \<Longrightarrow>
     those (map withType vps) = Some (map (\<lambda>(p, cs). (p, the (getPatternType cs), cs)) vps)"
  by (induction vps) (auto simp: withType_def)

lemma fold_score:
  "\<forall>(p, cs)\<in>set vps. getPatternType cs \<noteq> None \<Longrightarrow>
   fold (\<lambda>(pattern, patternType, cards) sum. sum + SCORE_VALUES patternType)
       (map (\<lambda>(p, cs). (p, the (getPatternType cs), cs)) vps) a
     = a + sum_list (map (\<lambda>(p, cs). basePoints cs) vps)"
  by (induction vps arbitrary: a) (auto simp: basePoints_def)

lemma multiplier_lookup:
  "(case COMBO_MULTIPLIERS (min n 4) of None \<Rightarrow> 1 | Some m \<Rightarrow> if m = 0 then 1 else m)
     = comboMultiplier n"
  by (auto simp: COMBO_MULTIPLIERS_def comboMultiplier_def min_def)

lemma validPatterns_typed: "\<forall>(p, cs)\<in>set (validPatterns s). getPatternType cs \<noteq> None"
  by (auto simp: validPatterns_def)

lemma elem_at_map: "elem_at (map f xs) i = map_option f (elem_at xs i)"
  by (simp add: elem_at_def)

lemma processPatterns_result:
  assumes ok: "\<forall>(p, cs)\<in>set vps. getPatternType cs \<noteq> None" and ne: "vps \<noteq> []"
  shows "\<exists>s'. processPatterns vps s = Inr s'
           \<and> grid s' = fold (\<lambda>index g. array_set g index Null) (cellsToRemove vps) (grid s)
           \<and> score s' = score s + sum_list (map (\<lambda>(p, cs). basePoints cs) vps) * comboMultiplier (length vps)
           \<and> deck s' = deck s \<and> currentCard s' = currentCard s \<and> gameOver s' = gameOver s
           \<and> seededRandom s' = seededRandom s \<and> currentSeed s' = currentSeed s
           \<and> showResultModal s' = showResultModal s
           \<and> length (gameLog s') = Suc (length (gameLog s))"
proof -
  define pwt where "pwt = map (\<lambda>(p, cs). (p, the (getPatternType cs), cs)) vps"
  from ne have n: "0 < length vps" by simp
  have th: "those (map withType vps) = Some pwt"
    unfolding pwt_def by (rule those_withType[OF ok])
  have base: "fold (\<lambda>(pattern, patternType, cards) sum. sum + SCORE_VALUES patternType) pwt 0
                = sum_list (map (\<lambda>(p, cs). basePoints cs) vps)"
    unfolding pwt_def using fold_score[OF ok, of 0] by simp
  have hd0: "elem_at pwt 0 \<noteq> None" using ne by (simp add: elem_at_def pwt_def)
  show ?thesis
    unfolding processPatterns_def th option.case Let_def base multiplier_lookup
    using hd0
    by (auto simp: addToGameLog_def elem_at_map split: option.splits prod.splits)
qed

lemma three_cells:
  "(length (filter_Boolean [x, y, z]) = 3 \<and> getPatternType (filter_Boolean [x, y, z]) \<noteq> None)
     \<longleftrightarrow> (case [x, y, z] of
            [Occupied a, Occupied b, Occupied c] \<Rightarrow> getPatternType [a, b, c]
          | _ \<Rightarrow> None) \<noteq> None"
  by (cases x; cases y; cases z) (simp_all add: filter_Boolean_def List.map_filter_simps)

lemma three_cells_type:
  "length (filter_Boolean [x, y, z]) = 3 \<Longrightarrow>
     getPatternType (filter_Boolean [x, y, z])
       = (case [x, y, z] of
            [Occupied a, Occupied b, Occupied c] \<Rightarrow> getPatternType [a, b, c]
          | _ \<Rightarrow> None)"
  by (cases x; cases y; cases z) (simp_all add: filter_Boolean_def List.map_filter_simps)

lemma PATTERNS_triple: "p \<in> set PATTERNS \<Longrightarrow> \<exists>i j k. p = [i, j, k]"
  by (auto simp: PATTERNS_def)

lemma valid_iff_patternOn:
  assumes "p \<in> set PATTERNS"
  shows "(length (filter_Boolean (map (array_get g) p)) = 3
            \<and> getPatternType (filter_Boolean (map (array_get g) p)) \<noteq> None)
         \<longleftrightarrow> patternOn g p \<noteq> None"
proof -
  from PATTERNS_triple[OF assms] obtain i j k where p: "p = [i, j, k]" by blast
  show ?thesis unfolding p patternOn_def using three_cells by simp
qed

lemma valid_type_patternOn:
  assumes "p \<in> set PATTERNS" and "length (filter_Boolean (map (array_get g) p)) = 3"
  shows "getPatternType (filter_Boolean (map (array_get g) p)) = patternOn g p"
proof -
  from PATTERNS_triple[OF assms(1)] obtain i j k where p: "p = [i, j, k]" by blast
  show ?thesis using assms(2) unfolding p patternOn_def using three_cells_type by simp
qed

lemma map_fst_filter_pair:
  "map fst (filter (\<lambda>(p, cs). P p cs) (map (\<lambda>p. (p, f p)) ps)) = filter (\<lambda>p. P p (f p)) ps"
  by (induction ps) auto

lemma validPatterns_matched: "map fst (validPatterns s) = matched s"
proof -
  have "map fst (validPatterns s)
          = filter (\<lambda>p. length (filter_Boolean (map (array_get (grid s)) p)) = 3
                        \<and> getPatternType (filter_Boolean (map (array_get (grid s)) p)) \<noteq> None)
              PATTERNS"
    unfolding validPatterns_def by (rule map_fst_filter_pair)
  also have "\<dots> = matched s"
    unfolding matched_def by (rule filter_cong[OF refl]) (rule valid_iff_patternOn)
  finally show ?thesis .
qed

lemma validPatterns_snd:
  "(p, cs) \<in> set (validPatterns s) \<Longrightarrow> basePoints cs = patternScore (grid s) p"
  by (auto simp: validPatterns_def basePoints_def patternScore_def valid_type_patternOn)

lemma validPatterns_points:
  "map (\<lambda>(p, cs). basePoints cs) (validPatterns s) = map (patternScore (grid s)) (matched s)"
proof -
  have "map (\<lambda>(p, cs). basePoints cs) (validPatterns s)
          = map (\<lambda>(p, cs). patternScore (grid s) p) (validPatterns s)"
    by (rule map_cong) (auto simp: validPatterns_snd)
  also have "\<dots> = map (patternScore (grid s)) (map fst (validPatterns s))"
    by (simp add: case_prod_beta comp_def)
  finally show ?thesis by (simp add: validPatterns_matched)
qed

lemma length_validPatterns: "length (validPatterns s) = length (matched s)"
  using validPatterns_matched[of s] by (metis length_map)

lemma cellsToRemove_matched: "cellsToRemove (validPatterns s) = new_Set (concat (matched s))"
  by (simp add: cellsToRemove_def validPatterns_matched)

lemma checkPatterns_result:
  "\<exists>s'. checkPatterns s = Inr s'
     \<and> grid s' = fold (\<lambda>index g. array_set g index Null) (new_Set (concat (matched s))) (grid s)
     \<and> score s' = score s
          + sum_list (map (patternScore (grid s)) (matched s)) * comboMultiplier (length (matched s))
     \<and> deck s' = deck s \<and> currentCard s' = currentCard s \<and> gameOver s' = gameOver s
     \<and> seededRandom s' = seededRandom s \<and> currentSeed s' = currentSeed s
     \<and> showResultModal s' = showResultModal s
     \<and> (matched s = [] \<longrightarrow> s' = s)"
proof (cases "validPatterns s = []")
  case True
  then have "matched s = []" using validPatterns_matched[of s] by simp
  with True show ?thesis by (simp add: checkPatterns_def)
next
  case False
  then have m: "matched s \<noteq> []" using validPatterns_matched[of s] by auto
  from processPatterns_result[OF validPatterns_typed False, of s]
  show ?thesis using False m
    by (auto simp: checkPatterns_def validPatterns_points length_validPatterns cellsToRemove_matched)
qed

lemma checkGameOver_fields:
  "grid (checkGameOver s) = grid s" "deck (checkGameOver s) = deck s"
  "currentCard (checkGameOver s) = currentCard s" "score (checkGameOver s) = score s"
  "gameLog (checkGameOver s) = gameLog s" "seededRandom (checkGameOver s) = seededRandom s"
  by (simp_all add: checkGameOver_def Let_def)

lemma checkGameOver_gameOver:
  "gameOver (checkGameOver s) \<longleftrightarrow>
     gameOver s \<or> (list_all (\<lambda>cell. cell \<noteq> Null) (grid s) \<and> \<not> hasValidPatterns s)
       \<or> (deck s = [] \<and> currentCard s = None)"
  by (auto simp: checkGameOver_def Let_def)

lemma placeCard_noop:
  "truthy (array_get (grid s) i) \<or> currentCard s = None \<Longrightarrow> placeCard i s = Inr s"
  by (simp add: placeCard_def)

lemma placeCard_step:
  assumes c: "currentCard s = Some c" and free: "\<not> truthy (array_get (grid s) i)"
  defines "s1 \<equiv> s\<lparr>grid := array_set (grid s) i (Occupied c)\<rparr>"
  shows "\<exists>s'. placeCard i s = Inr s'
     \<and> grid s' = fold (\<lambda>index g. array_set g index Null) (new_Set (concat (matched s1))) (grid s1)
     \<and> score s' = score s
          + sum_list (map (patternScore (grid s1)) (matched s1)) * comboMultiplier (length (matched s1))
     \<and> deck s' = butlast (deck s)
     \<and> currentCard s' = (if deck s = [] then None else Some (last (deck s)))
     \<and> (gameOver s' \<longleftrightarrow>
          gameOver s \<or> (list_all (\<lambda>cell. cell \<noteq> Null) (grid s') \<and> \<not> hasValidPatterns s')
            \<or> (deck s' = [] \<and> currentCard s' = None))"
proof -
  from checkPatterns_result[of s1] obtain s2 where
    cp: "checkPatterns s1 = Inr s2"
    and g2: "grid s2 = fold (\<lambda>index g. array_set g index Null) (new_Set (concat (matched s1))) (grid s1)"
    and sc2: "score s2 = score s1
          + sum_list (map (patternScore (grid s1)) (matched s1)) * comboMultiplier (length (matched s1))"
    and d2: "deck s2 = deck s1" and g2o: "gameOver s2 = gameOver s1"
    by blast
  have pc: "placeCard i s =
      Inr (checkGameOver (case drawCard s2 of (nextCard, s3) \<Rightarrow> displayCurrentCard nextCard s3))"
    using c free cp by (simp add: placeCard_def s1_def split: prod.splits)
  define s4 where "s4 = (case drawCard s2 of (nextCard, s3) \<Rightarrow> displayCurrentCard nextCard s3)"
  have s4: "grid s4 = grid s2" "score s4 = score s2" "deck s4 = butlast (deck s2)"
    "currentCard s4 = (if deck s2 = [] then None else Some (last (deck s2)))"
    "gameOver s4 = gameOver s2"
    by (simp_all add: s4_def drawCard_def displayCurrentCard_def Let_def)
  have hv: "hasValidPatterns (checkGameOver s4) = hasValidPatterns s4"
    by (simp add: hasValidPatterns_def checkGameOver_fields)
  show ?thesis
    unfolding pc s4_def[symmetric]
    using s4 g2 sc2 d2 g2o hv
    by (simp add: checkGameOver_fields checkGameOver_gameOver s1_def)
qed

lemma matched_comboSession: "matched comboSession = [[0, 1, 2], [0, 3, 6]]"
  by (simp add: matched_def comboSession_def PATTERNS_def patternOn_def array_get_def
        getPatternType_def isFlush_def isStraight_def isThreeOfAKind_def elem_at_def)

lemma patternOn_occupied:
  assumes "patternOn g p \<noteq> None" and "i \<in> set p"
  shows "\<exists>c. array_get g i = Occupied c"
proof -
  from assms(1) obtain a b c where "map (array_get g) p = [Occupied a, Occupied b, Occupied c]"
    by (auto simp: patternOn_def split: list.splits Cell.splits)
  moreover from assms(2) have "array_get g i \<in> set (map (array_get g) p)" by simp
  ultimately show ?thesis by auto
qed

lemma matched_range: "p \<in> set (matched s) \<Longrightarrow> i \<in> set p \<Longrightarrow> i < 9"
  by (auto simp: matched_def dest: PATTERNS_range)

lemma set_clear:
  "\<forall>i\<in>set cells. i < length g \<Longrightarrow>
     set (fold (\<lambda>index g. array_set g index Null) cells g) \<subseteq> insert Null (set g)"
proof (induction cells arbitrary: g)
  case Nil
  then show ?case by auto
next
  case (Cons i cells)
  have len: "length (array_set g i Null) = length g"
    using Cons.prems by (simp add: array_set_def)
  have "set (array_set g i Null) \<subseteq> insert Null (set g)"
    using Cons.prems by (simp add: array_set_def set_update_subset_insert)
  moreover have "set (fold (\<lambda>index g. array_set g index Null) cells (array_set g i Null))
                   \<subseteq> insert Null (set (array_set g i Null))"
    using Cons.prems len by (intro Cons.IH) auto
  ultimately show ?case by auto
qed

lemma matched_cells_range: "\<forall>i\<in>set (new_Set (concat (matched s))). i < 9"
  by (auto simp: set_new_Set dest: matched_range)

lemma hasValidPatterns_matched: "hasValidPatterns s \<longleftrightarrow> matched s \<noteq> []"
  using validPatterns_matched[of s] by (auto simp: hasValidPatterns_iff)

lemma matched_empty_iff: "matched s = [] \<longleftrightarrow> (\<forall>p\<in>set PATTERNS. patternOn (grid s) p = None)"
  by (auto simp: matched_def filter_empty_conv)

lemma gridOK_full:
  assumes "gridOK s"
  shows "list_all (\<lambda>cell. cell \<noteq> Null) (grid s) \<longleftrightarrow> (\<forall>k<9. \<exists>c. grid s ! k = Occupied c)"
proof -
  have cell: "\<And>x. x \<in> set (grid s) \<Longrightarrow> (x \<noteq> Null) = (\<exists>c. x = Occupied c)"
    using assms by (case_tac x) (auto simp: gridOK_def)
  have "list_all (\<lambda>cell. cell \<noteq> Null) (grid s) \<longleftrightarrow> (\<forall>k<length (grid s). grid s ! k \<noteq> Null)"
    by (simp add: list_all_length)
  also have "\<dots> \<longleftrightarrow> (\<forall>k<length (grid s). \<exists>c. grid s ! k = Occupied c)"
    using cell by (metis nth_mem)
  finally show ?thesis using assms by (simp add: gridOK_def)
qed

lemma gridOK_truthy:
  assumes "gridOK s"
  shows "list_all (\<lambda>cell. cell \<noteq> Null) (grid s) \<longleftrightarrow> list_all truthy (grid s)"
proof -
  have "\<And>x. x \<in> set (grid s) \<Longrightarrow> (x \<noteq> Null) = truthy x"
    using assms by (case_tac x) (auto simp: gridOK_def)
  then show ?thesis by (simp add: list_all_iff)
qed

lemma placeCard_gridOK:
  assumes ok: "gridOK s" and i: "i < 9" and pc: "placeCard i s = Inr s'"
  shows "gridOK s'"
proof (cases "truthy (array_get (grid s) i) \<or> currentCard s = None")
  case True
  with pc ok show ?thesis by (simp add: placeCard_noop)
next
  case False
  then obtain c where c: "currentCard s = Some c" and free: "\<not> truthy (array_get (grid s) i)"
    by auto
  define s1 where "s1 = s\<lparr>grid := array_set (grid s) i (Occupied c)\<rparr>"
  from placeCard_step[OF c free] pc
  have g: "grid s' = fold (\<lambda>index g. array_set g index Null) (new_Set (concat (matched s1))) (grid s1)"
    by (auto simp: s1_def)
  have g1: "grid s1 = (grid s)[i := Occupied c]"
    using ok i by (simp add: s1_def array_set_def gridOK_def)
  have len1: "length (grid s1) = 9" using ok g1 by (simp add: gridOK_def)
  have rng: "\<forall>i\<in>set (new_Set (concat (matched s1))). i < length (grid s1)"
    using matched_cells_range[of s1] len1 by simp
  have "set (grid s') \<subseteq> insert Null (set (grid s1))"
    unfolding g by (rule set_clear[OF rng])
  also have "\<dots> \<subseteq> insert Null (insert (Occupied c) (set (grid s)))"
    unfolding g1 using set_update_subset_insert[of "grid s" i "Occupied c"] by auto
  finally have "Undefined \<notin> set (grid s')" using ok by (auto simp: gridOK_def)
  moreover have "length (grid s') = 9"
    unfolding g using length_clear[OF rng] len1 by simp
  ultimately show ?thesis by (simp add: gridOK_def)
qed

section \<open>Lemmas on the generator and the shuffle\<close>

lemma generator_snd: "snd (generator fp h) = h + 1"
  by (simp add: generator_def Let_def)

lemma generator_exact:
  "generator exactFpu h = (frac (sin (real_of_int h) * 10000), h + 1)"
  by (simp add: generator_def exactFpu_def Let_def frac_def)

lemma generator_exact_range:
  "0 \<le> fst (generator exactFpu h) \<and> fst (generator exactFpu h) < 1"
  by (simp add: generator_exact frac_lt_1)

lemma swap_index_range:
  assumes "0 \<le> r" and "r < 1"
  shows "0 \<le> \<lfloor>r * real (i + 1)\<rfloor> \<and> nat \<lfloor>r * real (i + 1)\<rfloor> \<le> i"
proof -
  have "0 \<le> r * real (i + 1)" using assms by simp
  then have lo: "0 \<le> \<lfloor>r * real (i + 1)\<rfloor>" by simp
  have "r * real (i + 1) < real (i + 1)" using assms by simp
  then have "\<lfloor>r * real (i + 1)\<rfloor> < int (i + 1)" by (simp add: floor_less_iff)
  with lo show ?thesis by linarith
qed

lemma shuffle_loop_hash: "snd (shuffle_loop fp k h arr) = h + int k"
proof (induction k arbitrary: h arr)
  case 0
  then show ?case by simp
next
  case (Suc k)
  obtain r h' where g: "generator fp h = (r, h')" by (cases "generator fp h")
  with generator_snd[of fp h] have "h' = h + 1" by simp
  then show ?case using g Suc.IH by (simp add: Let_def)
qed


lemma toList_arrayOf: "toList (arrayOf xs) = map Some xs"
  by (auto simp: toList_def arrayOf_def intro: nth_equalityI)

lemma swap_arrayOf:
  assumes "0 \<le> j" and "nat j < length xs" and "i < length xs"
  shows "propSet (propSet (arrayOf xs) (int i) (propGet (arrayOf xs) j)) j
           (propGet (arrayOf xs) (int i))
         = arrayOf (xs[i := xs ! nat j, nat j := xs ! i])"
  using assms
  by (auto simp: propSet_def propGet_def arrayOf_def fun_eq_iff nth_list_update)

lemma fold_bind_None: "fold (\<lambda>i st. Option.bind st (f i)) is None = None"
  by (induction "is") simp_all

lemma shuffle_loop_fisherYates:
  assumes "k < length xs"
    and "fold (\<lambda>i st. Option.bind st (fisherYatesStep fp i)) (rev [1..<Suc k]) (Some (xs, h))
           = Some (ys, h')"
  shows "shuffle_loop fp k h (arrayOf xs) = (arrayOf ys, h')"
  using assms
proof (induction k arbitrary: h xs)
  case 0
  then show ?case by simp
next
  case (Suc k)
  obtain r h1 where g: "generator fp h = (r, h1)" by (cases "generator fp h")
  define j where "j = \<lfloor>round_double fp (r * real (Suc k + 1))\<rfloor>"
  show ?case
  proof (cases "0 \<le> j \<and> nat j < length xs")
    case True
    define xs' where "xs' = xs[Suc k := xs ! nat j, nat j := xs ! Suc k]"
    have step: "fisherYatesStep fp (Suc k) (xs, h) = Some (xs', h1)"
      using g True Suc.prems(1) by (simp add: fisherYatesStep_def j_def xs'_def Let_def)
    have "fold (\<lambda>i st. Option.bind st (fisherYatesStep fp i)) (rev [1..<Suc k]) (Some (xs', h1))
            = Some (ys, h')"
      using Suc.prems(2) step by simp
    moreover have "k < length xs'" using Suc.prems(1) by (simp add: xs'_def)
    ultimately have ih: "shuffle_loop fp k h1 (arrayOf xs') = (arrayOf ys, h')"
      by (rule Suc.IH[rotated])
    have "shuffle_loop fp (Suc k) h (arrayOf xs)
            = shuffle_loop fp k h1
                (propSet (propSet (arrayOf xs) (int (Suc k)) (propGet (arrayOf xs) j)) j
                   (propGet (arrayOf xs) (int (Suc k))))"
      using g by (simp add: Let_def j_def)
    also have "\<dots> = shuffle_loop fp k h1 (arrayOf xs')"
      using swap_arrayOf[of j xs "Suc k"] True Suc.prems(1) by (simp add: xs'_def)
    finally show ?thesis using ih by simp
  next
    case False
    then have "fisherYatesStep fp (Suc k) (xs, h) = None"
      using g by (auto simp: fisherYatesStep_def j_def Let_def)
    then have "fold (\<lambda>i st. Option.bind st (fisherYatesStep fp i)) (rev [1..<Suc (Suc k)])
                 (Some (xs, h)) = None"
      by (simp add: fold_bind_None)
    with Suc.prems(2) show ?thesis by simp
  qed
qed

lemma fisherYates_refines:
  assumes "fisherYates fp xs h = Some (ys, h')"
  shows "shuffle_loop fp (length xs - 1) h (arrayOf xs) = (arrayOf ys, h')"
proof (cases xs)
  case Nil
  with assms show ?thesis by (simp add: fisherYates_def)
next
  case (Cons x xs')
  then have k: "length xs - 1 < length xs" and "Suc (length xs - 1) = length xs" by simp_all
  with assms have "fold (\<lambda>i st. Option.bind st (fisherYatesStep fp i))
                     (rev [1..<Suc (length xs - 1)]) (Some (xs, h)) = Some (ys, h')"
    by (simp add: fisherYates_def)
  from shuffle_loop_fisherYates[OF k this] show ?thesis .
qed

lemma generator_norounding:
  assumes "round_double fp = (\<lambda>x. x)"
  shows "0 \<le> fst (generator fp h) \<and> fst (generator fp h) < 1"
proof -
  have "fst (generator fp h) = frac (Math_sin fp (real_of_int h) * 10000)"
    by (simp add: generator_def Let_def assms frac_def)
  then show ?thesis using frac_lt_1 frac_ge_0 by simp
qed

lemma fisherYates_fold_norounding:
  assumes rd: "round_double fp = (\<lambda>x. x)"
  shows "k < length xs \<Longrightarrow>
     \<exists>ys. fold (\<lambda>i st. Option.bind st (fisherYatesStep fp i)) (rev [1..<Suc k])
             (Some (xs, h)) = Some (ys, h + int k)
          \<and> mset ys = mset xs \<and> (\<forall>p. k < p \<longrightarrow> ys ! p = xs ! p)"
proof (induction k arbitrary: h xs)
  case 0
  then show ?case by simp
next
  case (Suc k)
  obtain r h1 where g: "generator fp h = (r, h1)" by (cases "generator fp h")
  from generator_norounding[OF rd, of h] generator_snd[of fp h] g
  have r: "0 \<le> r" "r < 1" and h1: "h1 = h + 1" by simp_all
  define j where "j = \<lfloor>round_double fp (r * real (Suc k + 1))\<rfloor>"
  have j_eq: "j = \<lfloor>r * real (Suc k + 1)\<rfloor>" by (simp add: j_def rd)
  from swap_index_range[OF r, of "Suc k"]
  have j: "0 \<le> j" "nat j \<le> Suc k" by (simp_all add: j_eq)
  define xs' where "xs' = xs[Suc k := xs ! nat j, nat j := xs ! Suc k]"
  have jl: "nat j < length xs" using j Suc.prems by simp
  have m: "mset xs' = mset xs"
    unfolding xs'_def using mset_swap[OF jl, of "Suc k"] Suc.prems by simp
  have same: "\<And>p. Suc k < p \<Longrightarrow> xs' ! p = xs ! p"
    using j by (simp add: xs'_def)
  have step: "fisherYatesStep fp (Suc k) (xs, h) = Some (xs', h1)"
    using g j jl Suc.prems by (simp add: fisherYatesStep_def j_def xs'_def Let_def)
  have "k < length xs'" using Suc.prems by (simp add: xs'_def)
  from Suc.IH[OF this, of h1] obtain ys where
    ys: "fold (\<lambda>i st. Option.bind st (fisherYatesStep fp i)) (rev [1..<Suc k])
           (Some (xs', h1)) = Some (ys, h1 + int k)" "mset ys = mset xs'"
      "\<forall>p. k < p \<longrightarrow> ys ! p = xs' ! p"
    by blast
  have "\<forall>p. Suc k < p \<longrightarrow> ys ! p = xs ! p" using ys(3) same by simp
  then show ?case using ys m h1 step by simp
qed

lemma fisherYates_exact:
  "\<exists>ys. fisherYates exactFpu xs h = Some (ys, h + int (length xs - 1)) \<and> mset ys = mset xs"
proof (cases xs)
  case Nil
  then show ?thesis by (simp add: fisherYates_def)
next
  case (Cons x xs')
  then have k: "length xs - 1 < length xs" and e: "Suc (length xs - 1) = length xs" by simp_all
  have rd: "round_double exactFpu = (\<lambda>x. x)" by (simp add: exactFpu_def)
  from fisherYates_fold_norounding[OF rd k, of h] show ?thesis unfolding fisherYates_def e by blast
qed

lemma length_createDeck: "length createDeck = 52"
  by (simp add: createDeck_def SUITS_def RANKS_def)

lemma distinct_createDeck: "distinct createDeck"
  by (simp add: createDeck_def SUITS_def RANKS_def)

lemma valuesApart_swap:
  assumes "valuesApart S n arr"
  shows "valuesApart S n (propSet (propSet arr i (propGet arr j)) j (propGet arr i))"
proof -
  define sw where "sw = (\<lambda>k. if k = j then i else if k = i then j else k)"
  let ?arr' = "propSet (propSet arr i (propGet arr j)) j (propGet arr i)"
  have p: "\<And>k. props ?arr' k = props arr (sw k)"
    by (simp add: propSet_def propGet_def sw_def)
  have inj: "\<And>k k'. sw k = sw k' \<Longrightarrow> k = k'"
    by (simp add: sw_def split: if_splits)
  have len: "alen arr \<le> alen ?arr'"
    by (simp add: propSet_def)
  from assms have a1: "\<And>k x. props arr k = Some x \<Longrightarrow> x \<in> S"
    and a2: "\<And>k k' x. props arr k = Some x \<Longrightarrow> props arr k' = Some x \<Longrightarrow> k = k'"
    and a3: "n \<le> alen arr"
    by (auto simp: valuesApart_def)
  show ?thesis
    unfolding valuesApart_def p
  proof (intro conjI allI impI)
    fix k x assume "props arr (sw k) = Some x"
    then show "x \<in> S" by (rule a1)
  next
    fix k k' x assume "props arr (sw k) = Some x \<and> props arr (sw k') = Some x"
    then have "sw k = sw k'" using a2 by blast
    then show "k = k'" by (rule inj)
  next
    show "n \<le> alen ?arr'" using a3 len by simp
  qed
qed

lemma valuesApart_shuffle_loop:
  "valuesApart S n arr \<Longrightarrow> valuesApart S n (fst (shuffle_loop fp k h arr))"
proof (induction k arbitrary: h arr)
  case 0
  then show ?case by simp
next
  case (Suc k)
  obtain r h' where g: "generator fp h = (r, h')" by (cases "generator fp h")
  show ?case
    using g Suc.IH[OF valuesApart_swap[OF Suc.prems]] by (simp add: Let_def)
qed

lemma valuesApart_arrayOf:
  assumes "distinct xs"
  shows "valuesApart (set xs) (length xs) (arrayOf xs)"
  using assms
  by (auto simp: valuesApart_def arrayOf_def nth_eq_iff_index_eq split: if_splits)

lemma those_Some_iff: "those ys = Some xs \<longleftrightarrow> ys = map Some xs"
  by (induction ys arbitrary: xs) (auto split: option.splits)

lemma valuesApart_all_defined:
  assumes inv: "valuesApart S n arr" and fin: "finite S" and cd: "card S \<le> n"
    and all: "toList arr = map Some cards"
  shows "distinct cards \<and> set cards = S"
proof -
  from inv have a1: "\<And>k x. props arr k = Some x \<Longrightarrow> x \<in> S"
    and a2: "\<And>k k' x. props arr k = Some x \<Longrightarrow> props arr k' = Some x \<Longrightarrow> k = k'"
    and a3: "n \<le> alen arr"
    by (auto simp: valuesApart_def)
  from all have len: "length cards = alen arr"
    by (metis length_map toList_def length_upt diff_zero)
  have nth: "\<And>k. k < length cards \<Longrightarrow> props arr (int k) = Some (cards ! k)"
  proof -
    fix k assume k: "k < length cards"
    then have "toList arr ! k = props arr (int k)" using len by (simp add: toList_def)
    moreover have "map Some cards ! k = Some (cards ! k)" using k by simp
    ultimately show "props arr (int k) = Some (cards ! k)" using all by simp
  qed
  have d: "distinct cards"
    unfolding distinct_conv_nth
  proof (intro allI impI)
    fix i j assume i: "i < length cards" and j: "j < length cards" and ne: "i \<noteq> j"
    show "cards ! i \<noteq> cards ! j"
    proof
      assume "cards ! i = cards ! j"
      with nth[OF i] nth[OF j] have "int i = int j" using a2 by metis
      with ne show False by simp
    qed
  qed
  have sub: "set cards \<subseteq> S"
  proof
    fix x assume "x \<in> set cards"
    then obtain k where "k < length cards" "cards ! k = x" by (auto simp: in_set_conv_nth)
    with nth[of k] show "x \<in> S" using a1 by blast
  qed
  have "card (set cards) = length cards" using d by (rule distinct_card)
  then have "card S \<le> card (set cards)" using cd a3 len by simp
  with fin sub have "set cards = S" by (rule card_seteq)
  with d show ?thesis by simp
qed

lemma deckOfSeed_permutation:
  assumes "those (deckOfSeed fp seed) = Some cards"
  shows "mset cards = mset createDeck"
proof -
  let ?arr = "fst (shuffle_loop fp (length createDeck - 1) (createSeededRandom seed)
                    (arrayOf createDeck))"
  have inv: "valuesApart (set createDeck) (length createDeck) ?arr"
    by (rule valuesApart_shuffle_loop[OF valuesApart_arrayOf[OF distinct_createDeck]])
  have all: "toList ?arr = map Some cards"
    using assms by (simp add: deckOfSeed_def those_Some_iff)
  have "card (set createDeck) \<le> length createDeck" by (rule card_length)
  from valuesApart_all_defined[OF inv _ this all]
  have "distinct cards" "set cards = set createDeck" by simp_all
  then show ?thesis using distinct_createDeck by (simp add: set_eq_iff_mset_eq_distinct)
qed

lemma shuffleDeck_result:
  "shuffleDeck fp cards s
     = (toList (fst (shuffle_loop fp (length cards - 1) (seededRandom s) (arrayOf cards))),
        s\<lparr>seededRandom := seededRandom s + int (length cards - 1)\<rparr>)"
  using shuffle_loop_hash[of fp "length cards - 1" "seededRandom s" "arrayOf cards"]
  by (auto simp: shuffleDeck_def split: prod.splits)

lemma deckOfSeed_exact:
  "\<exists>ys. fisherYates exactFpu createDeck (createSeededRandom seed)
           = Some (ys, createSeededRandom seed + int (length createDeck - 1))
        \<and> deckOfSeed exactFpu seed = map Some ys \<and> mset ys = mset createDeck"
proof -
  from fisherYates_exact[of createDeck "createSeededRandom seed"] obtain ys where
    fy: "fisherYates exactFpu createDeck (createSeededRandom seed)
           = Some (ys, createSeededRandom seed + int (length createDeck - 1))"
    and m: "mset ys = mset createDeck"
    by blast
  from fisherYates_refines[OF fy] have "deckOfSeed exactFpu seed = map Some ys"
    by (simp add: deckOfSeed_def toList_arrayOf)
  with fy m show ?thesis by blast
qed

lemma ToInt32_sint: "ToInt32 x = sint (word_of_int x :: 32 word)"
  by (simp add: ToInt32_def sint_sbintrunc' signed_take_bit_eq_take_bit_shift take_bit_eq_mod)

lemma hashStep_word:
  "hashStep (sint (w :: 32 word)) (c # cs) = sint (push_bit 5 w - w + ucast c)"
proof -
  have sh: "shiftLeft (sint w) 5 = sint (push_bit 5 w)"
    by (simp add: shiftLeft_def ToInt32_sint push_bit_eq_mult)
  have "word_of_int (sint (push_bit 5 w) - sint w + uint c) = push_bit 5 w - w + (ucast c :: 32 word)"
    by (simp add: word_of_int_uint)
  then show ?thesis
    by (simp add: hashStep_def charCodeAt0_def sh ToInt32_sint)
qed

lemma Array_from_nonempty: "char \<in> set (Array_from seed) \<Longrightarrow> char \<noteq> []"
  by (induction seed rule: Array_from.induct) (auto split: if_splits)

lemma fold_hash_word:
  "\<forall>char\<in>set chars. char \<noteq> [] \<Longrightarrow>
    fold (\<lambda>char acc. hashStep acc char) chars (sint (w :: 32 word))
      = sint (fold (\<lambda>code hash. push_bit 5 hash - hash + code)
                (map (\<lambda>char. ucast (hd char)) chars) w)"
proof (induction chars arbitrary: w)
  case Nil
  then show ?case by simp
next
  case (Cons char chars)
  then obtain c cs where char: "char = c # cs" by (cases char) auto
  show ?case using Cons by (simp add: char hashStep_word)
qed

lemma createSeededRandom_specHash: "createSeededRandom seed = sint (specHash (charCodes seed))"
  using fold_hash_word[of "Array_from seed" 0] Array_from_nonempty[of _ seed]
  by (simp add: createSeededRandom_def specHash_def charCodes_def)

lemma hash_ANZXATI: "createSeededRandom [65, 78, 90, 88, 65, 84, 73] = - 122925461"
proof -
  have w: "specHash (charCodes [65, 78, 90, 88, 65, 84, 73]) = 4172041835"
    by (simp add: specHash_def charCodes_def)
  show ?thesis
    unfolding createSeededRandom_specHash w
    by (simp add: sint_uint signed_take_bit_eq_take_bit_shift take_bit_eq_mod)
qed

lemma deck_ANZXATI:
  "\<exists>ys. deckOfSeed roundedSineFpu [65, 78, 90, 88, 65, 84, 73] = map Some ys
        \<and> last ys = \<lparr>suit = heart, rank = A\<rparr>"
proof -
  let ?h = "- 122925461 :: int"
  have rd: "round_double roundedSineFpu = (\<lambda>x. x)" by (simp add: roundedSineFpu_def)
  have g: "generator roundedSineFpu ?h = (0, ?h + 1)"
    by (simp add: generator_def roundedSineFpu_def)
  define xs' where "xs' = createDeck[51 := createDeck ! 0, 0 := createDeck ! 51]"
  have len: "length xs' = 52" by (simp add: xs'_def length_createDeck)
  have step: "fisherYatesStep roundedSineFpu 51 (createDeck, ?h) = Some (xs', ?h + 1)"
    using g by (simp add: fisherYatesStep_def rd xs'_def length_createDeck)
  have "(50::nat) < length xs'" using len by simp
  from fisherYates_fold_norounding[OF rd this, of "?h + 1"] obtain ys where
    ys: "fold (\<lambda>i st. Option.bind st (fisherYatesStep roundedSineFpu i)) (rev [1..<Suc 50])
           (Some (xs', ?h + 1)) = Some (ys, ?h + 1 + int 50)"
    and m: "mset ys = mset xs'" and keep: "\<forall>p. 50 < p \<longrightarrow> ys ! p = xs' ! p"
    by blast
  have up: "rev [1..<52] = 51 # rev [1..<Suc 50]" by (simp add: upt_rec[of 1 52] upt_conv_Cons) 
  have fy: "fisherYates roundedSineFpu createDeck ?h = Some (ys, ?h + 1 + int 50)"
    unfolding fisherYates_def length_createDeck up using step ys by simp
  have ly: "length ys = 52" using m len by (metis size_mset)
  then have ne: "ys \<noteq> []" by auto
  have "last ys = ys ! (length ys - 1)" using ne by (rule last_conv_nth)
  also have "\<dots> = ys ! 51" by (simp add: ly)
  also have "\<dots> = xs' ! 51" using keep by simp
  also have "\<dots> = createDeck ! 0" by (simp add: xs'_def length_createDeck)
  also have "\<dots> = \<lparr>suit = heart, rank = A\<rparr>" by (simp add: createDeck_def SUITS_def RANKS_def)
  finally have l: "last ys = \<lparr>suit = heart, rank = A\<rparr>" .
  from fisherYates_refines[OF fy]
  have "deckOfSeed roundedSineFpu [65, 78, 90, 88, 65, 84, 73] = map Some ys"
    by (simp add: deckOfSeed_def hash_ANZXATI toList_arrayOf)
  with l show ?thesis by blast
qed



section \<open>Lemmas on card conservation and the start of a game\<close>

lemma filter_Boolean_append:
  "filter_Boolean (xs @ ys) = filter_Boolean xs @ filter_Boolean ys"
  by (simp add: filter_Boolean_def List.map_filter_def)

lemma filter_Boolean_replicate: "filter_Boolean (replicate n Undefined) = []"
  by (induction n) (simp_all add: filter_Boolean_def List.map_filter_simps)

lemma filter_Boolean_replicate_Null: "filter_Boolean (replicate n Null) = []"
  by (induction n) (simp_all add: filter_Boolean_def List.map_filter_simps)

lemma filter_Boolean_single:
  "filter_Boolean [x] = (case card_of x of None \<Rightarrow> [] | Some c \<Rightarrow> [c])"
  by (simp add: filter_Boolean_def List.map_filter_simps split: option.splits)

lemma filter_Boolean_update:
  assumes "i < length g"
  shows "filter_Boolean (g[i := x])
           = filter_Boolean (take i g) @ filter_Boolean [x] @ filter_Boolean (drop (Suc i) g)"
  using assms by (simp add: upd_conv_take_nth_drop filter_Boolean_append[symmetric])

lemma filter_Boolean_split:
  assumes "i < length g"
  shows "filter_Boolean g
           = filter_Boolean (take i g) @ filter_Boolean [g ! i] @ filter_Boolean (drop (Suc i) g)"
proof -
  have "g = take i g @ [g ! i] @ drop (Suc i) g"
    using assms by (simp add: id_take_nth_drop[symmetric])
  then show ?thesis by (metis filter_Boolean_append)
qed

lemma mset_place:
  assumes "\<not> truthy (array_get g i)"
  shows "mset (filter_Boolean (array_set g i (Occupied c))) = add_mset c (mset (filter_Boolean g))"
proof (cases "i < length g")
  case True
  with assms have "card_of (g ! i) = None"
    by (cases "g ! i") (simp_all add: array_get_def)
  then have "filter_Boolean [g ! i] = []" by (simp add: filter_Boolean_single)
  with filter_Boolean_update[OF True, of "Occupied c"] filter_Boolean_split[OF True] True
  show ?thesis
    by (simp add: array_set_def filter_Boolean_single)
next
  case False
  then show ?thesis
    by (simp add: array_set_def filter_Boolean_append filter_Boolean_replicate filter_Boolean_single)
qed

lemma mset_clear_one: "mset (filter_Boolean (array_set g i Null)) \<subseteq># mset (filter_Boolean g)"
proof (cases "i < length g")
  case True
  have "mset (filter_Boolean g)
          = mset (filter_Boolean (take i g)) + mset (filter_Boolean [g ! i])
            + mset (filter_Boolean (drop (Suc i) g))"
    using filter_Boolean_split[OF True] by (metis mset_append add.assoc)
  moreover have "mset (filter_Boolean (g[i := Null]))
          = mset (filter_Boolean (take i g)) + mset (filter_Boolean (drop (Suc i) g))"
    using filter_Boolean_update[OF True, of Null] by (simp add: filter_Boolean_single)
  ultimately show ?thesis using True by (simp add: array_set_def)
next
  case False
  then show ?thesis
    by (simp add: array_set_def filter_Boolean_append filter_Boolean_replicate filter_Boolean_single)
qed

lemma mset_clear:
  "mset (filter_Boolean (fold (\<lambda>index g. array_set g index Null) cells g))
     \<subseteq># mset (filter_Boolean g)"
proof (induction cells arbitrary: g)
  case Nil
  then show ?case by simp
next
  case (Cons i cells)
  have "mset (filter_Boolean (fold (\<lambda>index g. array_set g index Null) cells (array_set g i Null)))
          \<subseteq># mset (filter_Boolean (array_set g i Null))"
    by (rule Cons.IH)
  also have "\<dots> \<subseteq># mset (filter_Boolean g)" by (rule mset_clear_one)
  finally show ?case by simp
qed

lemma distinct_mset_mono:
  assumes "mset xs \<subseteq># mset ys" and "distinct ys"
  shows "distinct xs"
proof -
  have le: "\<And>a. count (mset xs) a \<le> count (mset ys) a"
    using assms(1) by (simp add: mset_subset_eq_count)
  have "\<And>a. count (mset ys) a \<le> 1"
    using assms(2) unfolding distinct_count_atmost_1 by (simp split: if_splits)
  with le have one: "\<And>a. count (mset xs) a \<le> 1" by (meson order_trans)
  show ?thesis
    unfolding distinct_count_atmost_1
  proof
    fix a
    show "count (mset xs) a = (if a \<in> set xs then 1 else 0)"
    proof (cases "a \<in> set xs")
      case True
      then have "0 < count (mset xs) a" by (rule count_mset_gt_0)
      with one[of a] have "count (mset xs) a = 1" by linarith
      with True show ?thesis by simp
    next
      case False
      then show ?thesis by (simp add: count_mset_0_iff)
    qed
  qed
qed

lemma mset_butlast_last: "xs \<noteq> [] \<Longrightarrow> add_mset (last xs) (mset (butlast xs)) = mset xs"
  by (induction xs) auto

lemma placeCard_cards:
  assumes pc: "placeCard i s = Inr s'"
  shows "mset (deck s' @ heldCards s' @ gridCards s') \<subseteq># mset (deck s @ heldCards s @ gridCards s)"
    and "\<exists>drawn. deck s = deck s' @ drawn \<and> length drawn \<le> 1
            \<and> (drawn \<noteq> [] \<longrightarrow> heldCards s' = drawn)"
proof -
  have "mset (deck s' @ heldCards s' @ gridCards s') \<subseteq># mset (deck s @ heldCards s @ gridCards s)
      \<and> (\<exists>drawn. deck s = deck s' @ drawn \<and> length drawn \<le> 1
            \<and> (drawn \<noteq> [] \<longrightarrow> heldCards s' = drawn))"
  proof (cases "truthy (array_get (grid s) i) \<or> currentCard s = None")
    case True
    with pc have "s' = s" by (simp add: placeCard_noop)
    then show ?thesis by simp
  next
    case False
    then obtain c where c: "currentCard s = Some c" and free: "\<not> truthy (array_get (grid s) i)"
      by auto
    define s1 where "s1 = s\<lparr>grid := array_set (grid s) i (Occupied c)\<rparr>"
    from placeCard_step[OF c free] pc
    have g: "grid s' = fold (\<lambda>index g. array_set g index Null) (new_Set (concat (matched s1))) (grid s1)"
      and d: "deck s' = butlast (deck s)"
      and cc: "currentCard s' = (if deck s = [] then None else Some (last (deck s)))"
      by (auto simp: s1_def)
    have "mset (gridCards s') \<subseteq># mset (filter_Boolean (grid s1))"
      unfolding gridCards_def g by (rule mset_clear)
    also have "\<dots> = add_mset c (mset (gridCards s))"
      unfolding gridCards_def s1_def using mset_place[OF free] by simp
    finally have gr: "mset (gridCards s') \<subseteq># add_mset c (mset (gridCards s))" .
    have dk: "mset (deck s') + mset (heldCards s') = mset (deck s)"
    proof (cases "deck s = []")
      case True
      then show ?thesis using d cc by (simp add: heldCards_def)
    next
      case False
      then show ?thesis using d cc by (simp add: heldCards_def mset_butlast_last)
    qed
    have "mset (deck s' @ heldCards s' @ gridCards s')
            = (mset (deck s') + mset (heldCards s')) + mset (gridCards s')"
      by (simp add: add.assoc)
    also have "\<dots> \<subseteq># mset (deck s) + add_mset c (mset (gridCards s))"
      unfolding dk using gr by (simp add: mset_subset_eq_mono_add_left_cancel)
    also have "\<dots> = mset (deck s @ heldCards s @ gridCards s)"
      using c by (simp add: heldCards_def)
    finally have m: "mset (deck s' @ heldCards s' @ gridCards s')
                       \<subseteq># mset (deck s @ heldCards s @ gridCards s)" .
    have "\<exists>drawn. deck s = deck s' @ drawn \<and> length drawn \<le> 1
            \<and> (drawn \<noteq> [] \<longrightarrow> heldCards s' = drawn)"
    proof (cases "deck s = []")
      case True
      then show ?thesis using d by simp
    next
      case False
      then have "deck s = deck s' @ [last (deck s)]" using d by simp
      moreover have "heldCards s' = [last (deck s)]" using cc False by (simp add: heldCards_def)
      ultimately show ?thesis by (intro exI[of _ "[last (deck s)]"]) simp
    qed
    with m show ?thesis by simp
  qed
  then show "mset (deck s' @ heldCards s' @ gridCards s') \<subseteq># mset (deck s @ heldCards s @ gridCards s)"
    and "\<exists>drawn. deck s = deck s' @ drawn \<and> length drawn \<le> 1
            \<and> (drawn \<noteq> [] \<longrightarrow> heldCards s' = drawn)"
    by simp_all
qed

lemma placeCard_total: "\<exists>s'. placeCard i s = Inr s'"
proof (cases "truthy (array_get (grid s) i) \<or> currentCard s = None")
  case True
  then show ?thesis by (simp add: placeCard_noop)
next
  case False
  then obtain c where "currentCard s = Some c" "\<not> truthy (array_get (grid s) i)" by auto
  from placeCard_step[OF this] show ?thesis by blast
qed

lemma startGame_cases:
  "(those (deckOfSeed fp (newSeedOf seed uuid)) = None \<longrightarrow> startGame fp seed uuid s0 = None)
   \<and> (\<forall>cards. those (deckOfSeed fp (newSeedOf seed uuid)) = Some cards \<longrightarrow>
         (\<exists>t. startGame fp seed uuid s0 = Some t
              \<and> deck t = butlast cards \<and> currentCard t = Some (last cards)
              \<and> grid t = replicate 9 Null \<and> score t = 0 \<and> \<not> gameOver t \<and> gameLog t = []
              \<and> currentSeed t = newSeedOf seed uuid))"
proof (intro conjI allI impI)
  assume "those (deckOfSeed fp (newSeedOf seed uuid)) = None"
  then show "startGame fp seed uuid s0 = None"
    unfolding startGame_def newSeedOf_def[symmetric]
    by (simp add: shuffleDeck_result deckOfSeed_def Let_def)
next
  fix cards
  assume c: "those (deckOfSeed fp (newSeedOf seed uuid)) = Some cards"
  have "length cards = length createDeck"
    using deckOfSeed_permutation[OF c] by (metis size_mset)
  then have ne: "cards \<noteq> []" by (auto simp: length_createDeck)
  show "\<exists>t. startGame fp seed uuid s0 = Some t
              \<and> deck t = butlast cards \<and> currentCard t = Some (last cards)
              \<and> grid t = replicate 9 Null \<and> score t = 0 \<and> \<not> gameOver t \<and> gameLog t = []
              \<and> currentSeed t = newSeedOf seed uuid"
    using c ne
    unfolding startGame_def newSeedOf_def[symmetric]
    by (simp add: shuffleDeck_result deckOfSeed_def Let_def drawCard_def displayCurrentCard_def)
qed

lemma startGame_conservation:
  assumes "startGame fp seed uuid s0 = Some s"
  shows "conservation s" and "clearedCards s = {}" and "sessionOK s"
proof -
  from startGame_cases[of fp seed uuid s0] assms obtain cards where
    c: "those (deckOfSeed fp (newSeedOf seed uuid)) = Some cards"
    by (cases "those (deckOfSeed fp (newSeedOf seed uuid))") auto
  from startGame_cases[of fp seed uuid s0] c assms
  have d: "deck s = butlast cards" and cc: "currentCard s = Some (last cards)"
    and g: "grid s = replicate 9 Null" and go: "\<not> gameOver s"
    by auto
  have m: "mset cards = mset createDeck" by (rule deckOfSeed_permutation[OF c])
  then have "length cards = length createDeck" by (metis size_mset)
  then have ne: "cards \<noteq> []" by (auto simp: length_createDeck)
  have all: "deck s @ heldCards s @ gridCards s = cards"
    using d cc g ne by (simp add: heldCards_def gridCards_def filter_Boolean_replicate_Null)
  have "distinct cards" using m distinct_createDeck by (metis mset_eq_imp_distinct_iff)
  moreover have st: "set cards = set createDeck" using m by (metis set_mset_mset)
  ultimately show "conservation s" unfolding conservation_def all by simp
  have "set (deck s) \<union> set (heldCards s) \<union> set (gridCards s) = set createDeck"
    using all st by (metis set_append Un_assoc)
  then show "clearedCards s = {}" by (auto simp: clearedCards_def)
  show "sessionOK s" using g go by (simp add: sessionOK_def gridOK_def)
qed

lemma placeCard_sessionOK:
  assumes ok: "sessionOK s" and i: "i < 9" and pc: "placeCard i s = Inr s'"
  shows "sessionOK s'"
proof (cases "truthy (array_get (grid s) i) \<or> currentCard s = None")
  case True
  with pc ok show ?thesis by (simp add: placeCard_noop)
next
  case False
  then obtain c where c: "currentCard s = Some c" and free: "\<not> truthy (array_get (grid s) i)"
    by auto
  from ok have gok: "gridOK s" by (simp add: sessionOK_def)
  have ok': "gridOK s'" by (rule placeCard_gridOK[OF gok i pc])
  have "\<not> list_all truthy (grid s)"
    using free gok i by (auto simp: list_all_length array_get_def gridOK_def)
  with ok c have playing: "\<not> gameOver s" by (auto simp: sessionOK_def)
  from placeCard_step[OF c free] pc playing
  have "gameOver s' \<longleftrightarrow> (list_all (\<lambda>cell. cell \<noteq> Null) (grid s') \<and> \<not> hasValidPatterns s')
            \<or> (deck s' = [] \<and> currentCard s' = None)"
    by auto
  then show ?thesis using ok' by (auto simp: sessionOK_def gridOK_truthy[OF ok'])
qed

lemma sessionOK_gameOver_noop:
  assumes "sessionOK s" and "i < 9" and "gameOver s"
  shows "placeCard i s = Inr s"
proof -
  from assms have "list_all truthy (grid s) \<or> currentCard s = None" and "length (grid s) = 9"
    by (auto simp: sessionOK_def gridOK_def)
  then have "truthy (array_get (grid s) i) \<or> currentCard s = None"
    using assms(2) by (auto simp: list_all_length array_get_def)
  then show ?thesis by (rule placeCard_noop)
qed

section \<open>Classification: priority and straights\<close>

text \<open>
  C3. For every triple of cards \<open>[a, b, c]\<close> the classification is the first of
  straightFlush (same suit and straight), flush (same suit), straight, threeOfAKind
  (same rank) that applies, and no pattern when none applies. In particular a same-suit
  straight is a straightFlush, never a flush or a straight.
\<close>

theorem getPatternType_priority:
  "getPatternType [a, b, c] =
     (if (suit a = suit b \<and> suit b = suit c) \<and> isStraight [a, b, c] then Some straightFlush
      else if suit a = suit b \<and> suit b = suit c then Some flush
      else if isStraight [a, b, c] then Some straight
      else if rank a = rank b \<and> rank b = rank c then Some threeOfAKind
      else None)
   \<and> (suit a = suit b \<and> suit b = suit c \<and> isStraight [a, b, c]
        \<longrightarrow> getPatternType [a, b, c] = Some straightFlush)
   \<and> (\<not> (suit a = suit b \<and> suit b = suit c) \<and> \<not> isStraight [a, b, c]
        \<and> \<not> (rank a = rank b \<and> rank b = rank c)
        \<longrightarrow> getPatternType [a, b, c] = None)"
  by (simp add: getPatternType_triple)

theorem getPatternType_priority_witness:
  "isStraight [\<lparr>suit = spade, rank = R9\<rparr>, \<lparr>suit = spade, rank = R8\<rparr>, \<lparr>suit = spade, rank = R10\<rparr>]
   \<and> getPatternType [\<lparr>suit = spade, rank = R9\<rparr>, \<lparr>suit = spade, rank = R8\<rparr>,
                      \<lparr>suit = spade, rank = R10\<rparr>] = Some straightFlush"
  using getPatternType_priority
          [of "\<lparr>suit = spade, rank = R9\<rparr>" "\<lparr>suit = spade, rank = R8\<rparr>" "\<lparr>suit = spade, rank = R10\<rparr>"]
  by (simp add: isStraight_def elem_at_def)

text \<open>
  C4. Three cards are a straight exactly when their rank values, sorted ascending, are
  1, 12, 13 or 1, 2, 3 or consecutive. In particular the ranks A, K, Q and A, 2, 3, in any
  order and of any suits, are straights, and A, J, Q is not.
\<close>

theorem isStraight_triple:
  "(isStraight [a, b, c] \<longleftrightarrow>
     (let values = sort [RANK_VALUES (rank a), RANK_VALUES (rank b), RANK_VALUES (rank c)] in
        values = [1, 12, 13] \<or> values = [1, 2, 3] \<or>
        (values ! 1 = values ! 0 + 1 \<and> values ! 2 = values ! 1 + 1)))
   \<and> (mset [rank a, rank b, rank c] = mset [A, K, Q] \<longrightarrow> isStraight [a, b, c])
   \<and> (mset [rank a, rank b, rank c] = mset [A, R2, R3] \<longrightarrow> isStraight [a, b, c])
   \<and> (mset [rank a, rank b, rank c] = mset [A, J, Q] \<longrightarrow> \<not> isStraight [a, b, c])"
proof (intro conjI impI)
  show "isStraight [a, b, c] \<longleftrightarrow>
     (let values = sort [RANK_VALUES (rank a), RANK_VALUES (rank b), RANK_VALUES (rank c)] in
        values = [1, 12, 13] \<or> values = [1, 2, 3] \<or>
        (values ! 1 = values ! 0 + 1 \<and> values ! 2 = values ! 1 + 1))"
    by (rule isStraight_sorted)
next
  assume "mset [rank a, rank b, rank c] = mset [A, K, Q]"
  from isStraight_ranks[OF this] show "isStraight [a, b, c]"
    by (simp add: elem_at_def)
next
  assume "mset [rank a, rank b, rank c] = mset [A, R2, R3]"
  from isStraight_ranks[OF this] show "isStraight [a, b, c]"
    by (simp add: elem_at_def)
next
  assume "mset [rank a, rank b, rank c] = mset [A, J, Q]"
  from isStraight_ranks[OF this] show "\<not> isStraight [a, b, c]"
    by (simp add: elem_at_def)
qed

theorem isStraight_triple_witness:
  "mset [K, A, Q] = mset [A, K, Q]
   \<and> isStraight [\<lparr>suit = heart, rank = K\<rparr>, \<lparr>suit = spade, rank = A\<rparr>, \<lparr>suit = club, rank = Q\<rparr>]
   \<and> mset [R3, A, R2] = mset [A, R2, R3]
   \<and> isStraight [\<lparr>suit = heart, rank = R3\<rparr>, \<lparr>suit = spade, rank = A\<rparr>, \<lparr>suit = club, rank = R2\<rparr>]
   \<and> mset [Q, J, A] = mset [A, J, Q]
   \<and> \<not> isStraight [\<lparr>suit = heart, rank = Q\<rparr>, \<lparr>suit = spade, rank = J\<rparr>, \<lparr>suit = club, rank = A\<rparr>]"
  using isStraight_triple
          [of "\<lparr>suit = heart, rank = K\<rparr>" "\<lparr>suit = spade, rank = A\<rparr>" "\<lparr>suit = club, rank = Q\<rparr>"]
        isStraight_triple
          [of "\<lparr>suit = heart, rank = R3\<rparr>" "\<lparr>suit = spade, rank = A\<rparr>" "\<lparr>suit = club, rank = R2\<rparr>"]
        isStraight_triple
          [of "\<lparr>suit = heart, rank = Q\<rparr>" "\<lparr>suit = spade, rank = J\<rparr>" "\<lparr>suit = club, rank = A\<rparr>"]
  by simp

section \<open>Scoring and clearing\<close>



text \<open>
  C6. In an evaluation pass on a nine-cell grid, the reported patterns are exactly the
  triples whose three cells all hold cards that classify; the cells to clear are the union
  of the matched triples, each listed once; after the pass every cell of that union is
  empty and every other cell holds what it held before.
\<close>

theorem clearing_exact:
  assumes "length (grid s) = 9"
  shows "\<exists>s'. checkPatterns s = Inr s'
     \<and> map fst (validPatterns s) = matched s
     \<and> (\<forall>p\<in>set (matched s). p \<in> set PATTERNS \<and> (\<forall>i\<in>set p. \<exists>c. grid s ! i = Occupied c))
     \<and> set (cellsToRemove (validPatterns s)) = \<Union> (set ` set (matched s))
     \<and> distinct (cellsToRemove (validPatterns s))
     \<and> length (grid s') = 9
     \<and> (\<forall>k<9. grid s' ! k = (if k \<in> \<Union> (set ` set (matched s)) then Null else grid s ! k))"
proof -
  let ?cells = "new_Set (concat (matched s))"
  from checkPatterns_result[of s] obtain s' where
    cp: "checkPatterns s = Inr s'"
    and g: "grid s' = fold (\<lambda>index g. array_set g index Null) ?cells (grid s)"
    by blast
  have rng: "\<forall>i\<in>set ?cells. i < length (grid s)"
    using assms by (auto simp: set_new_Set dest: matched_range)
  have setc: "set ?cells = \<Union> (set ` set (matched s))"
    by (simp add: set_new_Set)
  have occ: "\<forall>p\<in>set (matched s). p \<in> set PATTERNS \<and> (\<forall>i\<in>set p. \<exists>c. grid s ! i = Occupied c)"
  proof (intro ballI conjI)
    fix p assume p: "p \<in> set (matched s)"
    then show "p \<in> set PATTERNS" by (simp add: matched_def)
    fix i assume i: "i \<in> set p"
    from p have "patternOn (grid s) p \<noteq> None" by (simp add: matched_def)
    from patternOn_occupied[OF this i] matched_range[OF p i] assms
    show "\<exists>c. grid s ! i = Occupied c" by (simp add: array_get_def)
  qed
  have len: "length (grid s') = 9"
    using length_clear[OF rng] g assms by simp
  have nth: "\<forall>k<9. grid s' ! k = (if k \<in> \<Union> (set ` set (matched s)) then Null else grid s ! k)"
    using nth_clear[OF rng] g assms setc by simp
  show ?thesis
    using cp occ len nth setc
    by (simp add: validPatterns_matched cellsToRemove_matched distinct_new_Set)
qed

theorem clearing_exact_witness:
  "length (grid comboSession) = 9
   \<and> (\<exists>s'. checkPatterns comboSession = Inr s'
         \<and> cellsToRemove (validPatterns comboSession) = [0, 1, 2, 3, 6]
         \<and> grid s' = [Null, Null, Null, Null, Null, Occupied \<lparr>suit = club, rank = R2\<rparr>,
                      Null, Null, Null])"
proof -
  have len: "length (grid comboSession) = 9" by (simp add: comboSession_def)
  from clearing_exact[OF len] obtain s' where
    cp: "checkPatterns comboSession = Inr s'" and l: "length (grid s') = 9"
    and n: "\<forall>k<9. grid s' ! k
              = (if k \<in> \<Union> (set ` set (matched comboSession)) then Null else grid comboSession ! k)"
    by blast
  have "grid s' = map (\<lambda>k. grid s' ! k) [0..<9]"
    using l by (metis map_nth)
  also have "\<dots> = [Null, Null, Null, Null, Null, Occupied \<lparr>suit = club, rank = R2\<rparr>,
                      Null, Null, Null]"
    using n unfolding matched_comboSession by (simp add: upt_rec comboSession_def)
  finally have g: "grid s' = [Null, Null, Null, Null, Null, Occupied \<lparr>suit = club, rank = R2\<rparr>,
                      Null, Null, Null]" .
  have "cellsToRemove (validPatterns comboSession) = [0, 1, 2, 3, 6]"
    by (simp add: cellsToRemove_matched matched_comboSession)
  with cp g len show ?thesis by simp
qed

section \<open>Game over\<close>

text \<open>
  C7. After a placement on a free cell of a running game (with the clearing and the draw
  done), the game is over exactly when all nine cells hold a card and no triple yields a
  pattern, or the deck is empty and no card is in hand. In particular placing the last
  card, with the deck already empty, ends the game whatever the grid.
\<close>

theorem gameOver_exact:
  assumes ok: "gridOK s" and i: "i < 9" and playing: "\<not> gameOver s"
    and c: "currentCard s = Some c" and free: "grid s ! i = Null"
  shows "\<exists>s'. placeCard i s = Inr s'
     \<and> (gameOver s' \<longleftrightarrow>
          ((\<forall>k<9. \<exists>c. grid s' ! k = Occupied c) \<and> (\<forall>p\<in>set PATTERNS. patternOn (grid s') p = None))
          \<or> (deck s' = [] \<and> currentCard s' = None))
     \<and> (deck s = [] \<longrightarrow> gameOver s' \<and> currentCard s' = None)"
proof -
  have free': "\<not> truthy (array_get (grid s) i)"
    using ok i free by (simp add: array_get_def gridOK_def)
  from placeCard_step[OF c free'] obtain s' where
    pc: "placeCard i s = Inr s'"
    and d: "deck s' = butlast (deck s)"
    and cc: "currentCard s' = (if deck s = [] then None else Some (last (deck s)))"
    and go: "gameOver s' \<longleftrightarrow>
          gameOver s \<or> (list_all (\<lambda>cell. cell \<noteq> Null) (grid s') \<and> \<not> hasValidPatterns s')
            \<or> (deck s' = [] \<and> currentCard s' = None)"
    by blast
  have ok': "gridOK s'" by (rule placeCard_gridOK[OF ok i pc])
  have "gameOver s' \<longleftrightarrow>
          ((\<forall>k<9. \<exists>c. grid s' ! k = Occupied c) \<and> (\<forall>p\<in>set PATTERNS. patternOn (grid s') p = None))
          \<or> (deck s' = [] \<and> currentCard s' = None)"
    using go playing
    by (simp add: gridOK_full[OF ok'] hasValidPatterns_matched matched_empty_iff)
  moreover have "deck s = [] \<longrightarrow> gameOver s' \<and> currentCard s' = None"
    using go d cc by simp
  ultimately show ?thesis using pc by blast
qed

theorem gameOver_exact_witness:
  "gridOK exhaustedSession \<and> (4::nat) < 9 \<and> \<not> gameOver exhaustedSession
   \<and> currentCard exhaustedSession = Some \<lparr>suit = club, rank = Q\<rparr>
   \<and> grid exhaustedSession ! 4 = Null \<and> deck exhaustedSession = []
   \<and> (\<exists>s'. placeCard 4 exhaustedSession = Inr s' \<and> gameOver s' \<and> currentCard s' = None
          \<and> grid s' ! 0 = Null)"
proof -
  have h: "gridOK exhaustedSession" "(4::nat) < 9" "\<not> gameOver exhaustedSession"
    "currentCard exhaustedSession = Some \<lparr>suit = club, rank = Q\<rparr>"
    "grid exhaustedSession ! 4 = Null"
    by (simp_all add: exhaustedSession_def gridOK_def)
  have d: "deck exhaustedSession = []" by (simp add: exhaustedSession_def)
  from gameOver_exact[OF h] d obtain s' where
    pc: "placeCard 4 exhaustedSession = Inr s'" and go: "gameOver s'" "currentCard s' = None"
    by blast
  define s1 where "s1 = exhaustedSession\<lparr>grid := array_set (grid exhaustedSession) 4
                                              (Occupied \<lparr>suit = club, rank = Q\<rparr>)\<rparr>"
  have m: "matched s1 = []"
    by (simp add: s1_def matched_def exhaustedSession_def PATTERNS_def patternOn_def
          array_get_def array_set_def eval_nat_numeral)
  have free: "\<not> truthy (array_get (grid exhaustedSession) 4)"
    by (simp add: exhaustedSession_def array_get_def)
  from placeCard_step[OF h(4) free] pc
  have "grid s' = fold (\<lambda>index g. array_set g index Null) (new_Set (concat (matched s1))) (grid s1)"
    unfolding s1_def by auto
  then have "grid s' ! 0 = Null"
    unfolding m by (simp add: s1_def exhaustedSession_def array_set_def eval_nat_numeral)
  with pc go h d show ?thesis by blast
qed

section \<open>Rejected placements\<close>

text \<open>
  C8. A click on a cell, and with it the placement, is a no-op that returns the session
  unchanged (grid, deck, current card, score, game-over flag and log) and reports no error
  whenever the game is over, the cell is occupied or no card is in hand. \<^verbatim>\<open>placeCard\<close>
  itself checks the cell and the hand; the click handler also checks the game-over flag.
  In every session that \<^verbatim>\<open>startGame\<close> and placements on the nine cells produce, a game
  that is over has a full grid or no card in hand, so there \<^verbatim>\<open>placeCard\<close> alone is a
  no-op as well.
\<close>

theorem rejected_placements:
  "(gameOver s \<or> truthy (array_get (grid s) i) \<or> currentCard s = None \<longrightarrow> onClick i s = Inr s)
   \<and> (truthy (array_get (grid s) i) \<or> currentCard s = None \<longrightarrow> placeCard i s = Inr s)
   \<and> (sessionOK s \<and> i < 9 \<and> gameOver s \<longrightarrow> placeCard i s = Inr s)
   \<and> (\<forall>fp seed uuid s0 t. startGame fp seed uuid s0 = Some t \<longrightarrow> sessionOK t)
   \<and> (\<forall>s'. sessionOK s \<and> i < 9 \<and> placeCard i s = Inr s' \<longrightarrow> sessionOK s')"
proof (intro conjI impI allI)
  assume "gameOver s \<or> truthy (array_get (grid s) i) \<or> currentCard s = None"
  then show "onClick i s = Inr s" by (auto simp: onClick_def)
next
  assume "truthy (array_get (grid s) i) \<or> currentCard s = None"
  then show "placeCard i s = Inr s" by (rule placeCard_noop)
next
  assume "sessionOK s \<and> i < 9 \<and> gameOver s"
  then show "placeCard i s = Inr s" by (simp add: sessionOK_gameOver_noop)
next
  fix fp seed uuid s0 t
  assume "startGame fp seed uuid s0 = Some t"
  then show "sessionOK t" by (rule startGame_conservation(3))
next
  fix s'
  assume "sessionOK s \<and> i < 9 \<and> placeCard i s = Inr s'"
  then show "sessionOK s'" using placeCard_sessionOK by blast
qed

theorem rejected_placements_witness:
  "truthy (array_get (grid comboSession) 0) \<and> onClick 0 comboSession = Inr comboSession
   \<and> placeCard 0 comboSession = Inr comboSession
   \<and> currentCard finishedSession = None \<and> onClick 4 finishedSession = Inr finishedSession
   \<and> sessionOK finishedSession \<and> (4::nat) < 9 \<and> gameOver finishedSession
   \<and> placeCard 4 finishedSession = Inr finishedSession"
proof -
  have a: "truthy (array_get (grid comboSession) 0)"
    by (simp add: comboSession_def array_get_def)
  have b: "currentCard finishedSession = None" "gameOver finishedSession"
    "sessionOK finishedSession"
    by (simp_all add: finishedSession_def sessionOK_def gridOK_def)
  from rejected_placements[of comboSession 0] rejected_placements[of finishedSession 4] a b
  show ?thesis by simp
qed

section \<open>Card conservation\<close>

text \<open>
  C9. \<^verbatim>\<open>startGame\<close> establishes and every placement preserves card conservation: the
  deck, the hand and the grid together hold no card twice and only cards of the 52-card
  deck, so a cell holds at most one card and the deck has no duplicates. A placement
  removes at most the last card of the deck, which is then the card in hand; the deck never
  gains a card; a card that is cleared (in none of deck, hand and grid) stays cleared.
  Under conservation the cards drawn from the deck split into the card in hand, the cards
  on the grid and the cleared cards, no card being in two of them.
\<close>

theorem card_conservation:
  "(\<forall>fp seed uuid s0 t. startGame fp seed uuid s0 = Some t
       \<longrightarrow> conservation t \<and> clearedCards t = {})
   \<and> (\<exists>s'. placeCard i s = Inr s'
         \<and> (conservation s \<longrightarrow> conservation s')
         \<and> (\<exists>drawn. deck s = deck s' @ drawn \<and> length drawn \<le> 1
               \<and> (drawn \<noteq> [] \<longrightarrow> heldCards s' = drawn))
         \<and> set (deck s') \<subseteq> set (deck s)
         \<and> clearedCards s \<subseteq> clearedCards s')
   \<and> (conservation s \<longrightarrow>
         distinct (deck s) \<and> distinct (gridCards s)
         \<and> set (deck s) \<inter> set (heldCards s) = {} \<and> set (deck s) \<inter> set (gridCards s) = {}
         \<and> set (heldCards s) \<inter> set (gridCards s) = {}
         \<and> set createDeck - set (deck s)
             = set (heldCards s) \<union> set (gridCards s) \<union> clearedCards s)"
proof -
  have start: "\<forall>fp seed uuid s0 t. startGame fp seed uuid s0 = Some t
                 \<longrightarrow> conservation t \<and> clearedCards t = {}"
    using startGame_conservation(1,2) by blast
  from placeCard_total[of i s] obtain s' where pc: "placeCard i s = Inr s'" by blast
  note m = placeCard_cards(1)[OF pc]
  have sub: "set (deck s' @ heldCards s' @ gridCards s') \<subseteq> set (deck s @ heldCards s @ gridCards s)"
    using set_mset_mono[OF m] by simp
  have cons: "conservation s \<longrightarrow> conservation s'"
    unfolding conservation_def using distinct_mset_mono[OF m] sub by blast
  from placeCard_cards(2)[OF pc] obtain drawn where
    dr: "deck s = deck s' @ drawn" "length drawn \<le> 1" "drawn \<noteq> [] \<longrightarrow> heldCards s' = drawn"
    by blast
  have dsub: "set (deck s') \<subseteq> set (deck s)" using dr(1) by (metis set_append Un_upper1)
  have cl: "clearedCards s \<subseteq> clearedCards s'"
    using sub by (auto simp: clearedCards_def)
  have step: "\<exists>s'. placeCard i s = Inr s'
         \<and> (conservation s \<longrightarrow> conservation s')
         \<and> (\<exists>drawn. deck s = deck s' @ drawn \<and> length drawn \<le> 1
               \<and> (drawn \<noteq> [] \<longrightarrow> heldCards s' = drawn))
         \<and> set (deck s') \<subseteq> set (deck s)
         \<and> clearedCards s \<subseteq> clearedCards s'"
    using pc cons dr dsub cl by blast
  have part: "conservation s \<longrightarrow>
         distinct (deck s) \<and> distinct (gridCards s)
         \<and> set (deck s) \<inter> set (heldCards s) = {} \<and> set (deck s) \<inter> set (gridCards s) = {}
         \<and> set (heldCards s) \<inter> set (gridCards s) = {}
         \<and> set createDeck - set (deck s)
             = set (heldCards s) \<union> set (gridCards s) \<union> clearedCards s"
    by (auto simp: conservation_def clearedCards_def)
  from start step part show ?thesis by (intro conjI)
qed

theorem card_conservation_witness:
  "conservation lastCardSession
   \<and> (\<exists>s'. placeCard 4 lastCardSession = Inr s' \<and> conservation s'
          \<and> deck lastCardSession = deck s' @ [\<lparr>suit = club, rank = K\<rparr>]
          \<and> heldCards s' = [\<lparr>suit = club, rank = K\<rparr>])"
proof -
  have c: "conservation lastCardSession"
    by (simp add: conservation_def lastCardSession_def heldCards_def gridCards_def
          filter_Boolean_replicate_Null createDeck_def SUITS_def RANKS_def)
  from card_conservation[of 4 lastCardSession] obtain s' drawn where
    pc: "placeCard 4 lastCardSession = Inr s'" and c': "conservation s'"
    and dr: "deck lastCardSession = deck s' @ drawn" "length drawn \<le> 1"
      "drawn \<noteq> [] \<longrightarrow> heldCards s' = drawn"
    using c by blast
  have free: "\<not> truthy (array_get (grid lastCardSession) 4)"
    "currentCard lastCardSession = Some \<lparr>suit = club, rank = Q\<rparr>"
    by (simp_all add: lastCardSession_def array_get_def)
  from placeCard_step[OF free(2) free(1)] pc
  have "deck s' = butlast (deck lastCardSession)" by auto
  then have "deck s' = []" by (simp add: lastCardSession_def)
  with dr have "drawn = [\<lparr>suit = club, rank = K\<rparr>]" by (simp add: lastCardSession_def)
  with dr pc c c' show ?thesis by auto
qed

section \<open>Remaining cards\<close>

text \<open>
  C10. In a session whose deck is empty while a card is in hand, the remaining-card count
  is -1. The game-over rule does not exclude such a session: with a grid that is not full,
  \<^verbatim>\<open>checkGameOver\<close> leaves it as it is.
\<close>

theorem remainingCards_negative:
  "(deck s = [] \<and> currentCard s \<noteq> None \<longrightarrow> remainingCards s = - 1)
   \<and> (deck s = [] \<and> currentCard s \<noteq> None \<and> \<not> list_all (\<lambda>cell. cell \<noteq> Null) (grid s)
        \<longrightarrow> checkGameOver s = s)"
  by (auto simp: remainingCards_def checkGameOver_def Let_def)

theorem remainingCards_negative_witness:
  "\<exists>s'. placeCard 4 lastCardSession = Inr s' \<and> deck s' = [] \<and> currentCard s' \<noteq> None
        \<and> \<not> list_all (\<lambda>cell. cell \<noteq> Null) (grid s') \<and> \<not> gameOver s'
        \<and> remainingCards s' = - 1 \<and> checkGameOver s' = s'"
proof -
  have h: "currentCard lastCardSession = Some \<lparr>suit = club, rank = Q\<rparr>"
    "\<not> truthy (array_get (grid lastCardSession) 4)"
    by (simp_all add: lastCardSession_def array_get_def)
  define s1 where "s1 = lastCardSession\<lparr>grid := array_set (grid lastCardSession) 4
                                              (Occupied \<lparr>suit = club, rank = Q\<rparr>)\<rparr>"
  have m: "matched s1 = []"
    by (simp add: s1_def matched_def lastCardSession_def PATTERNS_def patternOn_def
          array_get_def array_set_def eval_nat_numeral)
  from placeCard_step[OF h] obtain s' where
    pc: "placeCard 4 lastCardSession = Inr s'"
    and g: "grid s' = fold (\<lambda>index g. array_set g index Null) (new_Set (concat (matched s1))) (grid s1)"
    and d: "deck s' = butlast (deck lastCardSession)"
    and c: "currentCard s' = (if deck lastCardSession = [] then None
                              else Some (last (deck lastCardSession)))"
    and go: "gameOver s' \<longleftrightarrow>
          gameOver lastCardSession
          \<or> (list_all (\<lambda>cell. cell \<noteq> Null) (grid s') \<and> \<not> hasValidPatterns s')
          \<or> (deck s' = [] \<and> currentCard s' = None)"
    unfolding s1_def by blast
  have d': "deck s' = []" using d by (simp add: lastCardSession_def)
  have c': "currentCard s' \<noteq> None" using c by (simp add: lastCardSession_def)
  have g': "\<not> list_all (\<lambda>cell. cell \<noteq> Null) (grid s')"
    using g unfolding m by (simp add: s1_def lastCardSession_def array_set_def eval_nat_numeral)
  have go': "\<not> gameOver s'" using go d' c' g' by (simp add: lastCardSession_def)
  from remainingCards_negative[of s'] pc d' c' g' go' show ?thesis by blast
qed

section \<open>The seeded shuffle\<close>

text \<open>
  C1. For every seed, the empty one included, and whatever the double arithmetic of the
  engine is, shuffling a fresh 52-card deck with the generator made from the seed returns
  the same array from any two sessions: the array \<open>deckOfSeed fp seed\<close>. Two games
  started with the same non-empty seed, from any two sessions, have the same deck and the
  same first card. Where that array holds no \<^verbatim>\<open>undefined\<close> it is a permutation of the
  52 cards, and the deck and the first card of the game together are that array. Under
  arithmetic without rounding the array never holds \<^verbatim>\<open>undefined\<close>.
\<close>

theorem shuffle_deterministic:
  "fst (shuffleDeck fp createDeck (s1\<lparr>seededRandom := createSeededRandom seed\<rparr>))
     = deckOfSeed fp seed
   \<and> fst (shuffleDeck fp createDeck (s2\<lparr>seededRandom := createSeededRandom seed\<rparr>))
     = deckOfSeed fp seed
   \<and> (seed \<noteq> [] \<longrightarrow>
        map_option (\<lambda>t. (deck t, currentCard t)) (startGame fp (Some seed) uuid1 s1)
          = map_option (\<lambda>t. (deck t, currentCard t)) (startGame fp (Some seed) uuid2 s2))
   \<and> (\<forall>cards. those (deckOfSeed fp seed) = Some cards \<longrightarrow>
         mset cards = mset createDeck
         \<and> (seed \<noteq> [] \<longrightarrow>
              (\<exists>t1 t2. startGame fp (Some seed) uuid1 s1 = Some t1
                     \<and> startGame fp (Some seed) uuid2 s2 = Some t2
                     \<and> deck t1 @ [last cards] = cards \<and> currentCard t1 = Some (last cards)
                     \<and> deck t2 @ [last cards] = cards \<and> currentCard t2 = Some (last cards))))
   \<and> (\<exists>ys. deckOfSeed exactFpu seed = map Some ys)"
proof -
  have run: "\<And>s. fst (shuffleDeck fp createDeck (s\<lparr>seededRandom := createSeededRandom seed\<rparr>))
                 = deckOfSeed fp seed"
    by (simp add: shuffleDeck_result deckOfSeed_def)
  have n: "seed \<noteq> [] \<Longrightarrow> newSeedOf (Some seed) uuid1 = seed \<and> newSeedOf (Some seed) uuid2 = seed"
    by (simp add: newSeedOf_def)
  have some: "\<And>cards. those (deckOfSeed fp seed) = Some cards \<Longrightarrow> seed \<noteq> [] \<Longrightarrow>
      \<exists>t1 t2. startGame fp (Some seed) uuid1 s1 = Some t1
             \<and> startGame fp (Some seed) uuid2 s2 = Some t2
             \<and> deck t1 @ [last cards] = cards \<and> currentCard t1 = Some (last cards)
             \<and> deck t2 @ [last cards] = cards \<and> currentCard t2 = Some (last cards)"
  proof -
    fix cards assume c: "those (deckOfSeed fp seed) = Some cards" and ne: "seed \<noteq> []"
    have "length cards = length createDeck"
      using deckOfSeed_permutation[OF c] by (metis size_mset)
    then have cne: "cards \<noteq> []" by (auto simp: length_createDeck)
    from startGame_cases[of fp "Some seed" uuid1 s1] c n[OF ne] obtain t1 where
      t1: "startGame fp (Some seed) uuid1 s1 = Some t1" "deck t1 = butlast cards"
        "currentCard t1 = Some (last cards)"
      by auto
    from startGame_cases[of fp "Some seed" uuid2 s2] c n[OF ne] obtain t2 where
      t2: "startGame fp (Some seed) uuid2 s2 = Some t2" "deck t2 = butlast cards"
        "currentCard t2 = Some (last cards)"
      by auto
    from t1 t2 cne show "\<exists>t1 t2. startGame fp (Some seed) uuid1 s1 = Some t1
             \<and> startGame fp (Some seed) uuid2 s2 = Some t2
             \<and> deck t1 @ [last cards] = cards \<and> currentCard t1 = Some (last cards)
             \<and> deck t2 @ [last cards] = cards \<and> currentCard t2 = Some (last cards)"
      by simp
  qed
  have same: "seed \<noteq> [] \<longrightarrow>
        map_option (\<lambda>t. (deck t, currentCard t)) (startGame fp (Some seed) uuid1 s1)
          = map_option (\<lambda>t. (deck t, currentCard t)) (startGame fp (Some seed) uuid2 s2)"
  proof
    assume ne: "seed \<noteq> []"
    show "map_option (\<lambda>t. (deck t, currentCard t)) (startGame fp (Some seed) uuid1 s1)
          = map_option (\<lambda>t. (deck t, currentCard t)) (startGame fp (Some seed) uuid2 s2)"
    proof (cases "those (deckOfSeed fp seed)")
      case None
      with startGame_cases[of fp "Some seed" uuid1 s1] startGame_cases[of fp "Some seed" uuid2 s2]
        n[OF ne]
      show ?thesis by simp
    next
      case (Some cards)
      from some[OF Some ne] obtain t1 t2 where
        "startGame fp (Some seed) uuid1 s1 = Some t1" "startGame fp (Some seed) uuid2 s2 = Some t2"
        "deck t1 @ [last cards] = cards" "currentCard t1 = Some (last cards)"
        "deck t2 @ [last cards] = cards" "currentCard t2 = Some (last cards)"
        by blast
      then show ?thesis by (metis append1_eq_conv option.simps(9))
    qed
  qed
  have ex: "\<exists>ys. deckOfSeed exactFpu seed = map Some ys"
    using deckOfSeed_exact[of seed] by blast
  show ?thesis
    using run[of s1] run[of s2] same some deckOfSeed_permutation ex by blast
qed

theorem shuffle_deterministic_witness:
  "[116, 101, 115, 116, 49] \<noteq> ([] :: jsstring)
   \<and> (\<exists>cards t1 t2.
         those (deckOfSeed exactFpu [116, 101, 115, 116, 49]) = Some cards
         \<and> mset cards = mset createDeck
         \<and> startGame exactFpu (Some [116, 101, 115, 116, 49]) [97] comboSession = Some t1
         \<and> startGame exactFpu (Some [116, 101, 115, 116, 49]) [98] exhaustedSession = Some t2
         \<and> deck t1 = deck t2 \<and> currentCard t1 = currentCard t2
         \<and> deck t1 @ [last cards] = cards)
   \<and> (\<exists>t. startGame roundedSineFpu (Some [65, 78, 90, 88, 65, 84, 73]) [97] comboSession = Some t
          \<and> currentCard t = Some \<lparr>suit = heart, rank = A\<rparr>)"
proof -
  note th = shuffle_deterministic
          [where fp = exactFpu and seed = "[116, 101, 115, 116, 49]" and ?s1.0 = comboSession
             and ?s2.0 = exhaustedSession and ?uuid1.0 = "[97]" and ?uuid2.0 = "[98]"]
  from th obtain ys where "deckOfSeed exactFpu [116, 101, 115, 116, 49] = map Some ys"
    by blast
  then have c: "those (deckOfSeed exactFpu [116, 101, 115, 116, 49]) = Some ys"
    by (simp add: those_Some_iff)
  have ne: "[116, 101, 115, 116, 49] \<noteq> ([] :: jsstring)" by simp
  from th c ne obtain t1 t2 where
    "mset ys = mset createDeck"
    "startGame exactFpu (Some [116, 101, 115, 116, 49]) [97] comboSession = Some t1"
    "startGame exactFpu (Some [116, 101, 115, 116, 49]) [98] exhaustedSession = Some t2"
    "deck t1 @ [last ys] = ys" "currentCard t1 = Some (last ys)"
    "deck t2 @ [last ys] = ys" "currentCard t2 = Some (last ys)"
    by blast
  with c ne have first: "[116, 101, 115, 116, 49] \<noteq> ([] :: jsstring)
   \<and> (\<exists>cards t1 t2.
         those (deckOfSeed exactFpu [116, 101, 115, 116, 49]) = Some cards
         \<and> mset cards = mset createDeck
         \<and> startGame exactFpu (Some [116, 101, 115, 116, 49]) [97] comboSession = Some t1
         \<and> startGame exactFpu (Some [116, 101, 115, 116, 49]) [98] exhaustedSession = Some t2
         \<and> deck t1 = deck t2 \<and> currentCard t1 = currentCard t2
         \<and> deck t1 @ [last cards] = cards)"
    by (metis append1_eq_conv)
  note th2 = shuffle_deterministic
          [where fp = roundedSineFpu and seed = "[65, 78, 90, 88, 65, 84, 73]"
             and ?s1.0 = comboSession and ?s2.0 = exhaustedSession
             and ?uuid1.0 = "[97]" and ?uuid2.0 = "[98]"]
  from deck_ANZXATI obtain zs where
    zs: "deckOfSeed roundedSineFpu [65, 78, 90, 88, 65, 84, 73] = map Some zs"
    and l: "last zs = \<lparr>suit = heart, rank = A\<rparr>"
    by blast
  from zs have c2: "those (deckOfSeed roundedSineFpu [65, 78, 90, 88, 65, 84, 73]) = Some zs"
    by (simp add: those_Some_iff)
  have ne2: "[65, 78, 90, 88, 65, 84, 73] \<noteq> ([] :: jsstring)" by simp
  from th2 c2 ne2 obtain u where
    "startGame roundedSineFpu (Some [65, 78, 90, 88, 65, 84, 73]) [97] comboSession = Some u"
    "currentCard u = Some (last zs)"
    by blast
  with l have second: "\<exists>t. startGame roundedSineFpu (Some [65, 78, 90, 88, 65, 84, 73]) [97] comboSession = Some t
          \<and> currentCard t = Some \<lparr>suit = heart, rank = A\<rparr>"
    by simp
  from first[THEN conjunct1] first[THEN conjunct2] second show ?thesis by (intro conjI)
qed




end
